theory Spec2Isabelle
  imports Main "HOL-Library.Sublist" "HOL-Library.Multiset"
begin

section \<open>pg\_dump\_sample: the dependency-ordered dump engine (dump/dump.go)\<close>

text \<open>
  A shallow embedding of package \<open>dump\<close>. Go strings are byte lists (\<open>string\<close>),
  Go maps are partial functions, a Go \<open>error\<close> is a value of type \<open>error\<close>, and a
  function that returns \<open>(x, err)\<close> returns a sum (\<open>Inl err\<close> or \<open>Inr x\<close>). The
  method \<open>Next\<close> calls itself without a bound, so it is a partial function in the
  option monad: \<open>None\<close> is a call that never returns.
\<close>

subsection \<open>Framing constants\<close>

text \<open>A Go raw string literal, line by line: each listed line is followed by a newline.\<close>

definition go_lines :: "string list \<Rightarrow> string" where
  "go_lines ls = concat (map (\<lambda>l. l @ [CHR 0x0A]) ls)"

definition BEGIN_DUMP :: string where
  "BEGIN_DUMP = go_lines
    ['''',
     ''--'',
     ''-- PostgreSQL database dump'',
     ''--'',
     '''',
     ''BEGIN;'',
     '''',
     ''SET statement_timeout = 0;'',
     ''SET lock_timeout = 0;'',
     ''SET client_encoding = 'UTF8';'',
     ''SET standard_conforming_strings = on;'',
     ''SET check_function_bodies = false;'',
     ''SET client_min_messages = warning;'',
     '''',
     ''SET search_path = public, pg_catalog;'',
     '''']"

definition END_DUMP :: string where
  "END_DUMP = go_lines
    ['''',
     ''COMMIT;'',
     '''',
     ''--'',
     ''-- PostgreSQL database dump complete'',
     ''--'']"

text \<open>\<open>BEGIN_TABLE_DUMP\<close> is a format with three \<open>%s\<close> verbs; the function is
  \<open>fmt.Sprintf(BEGIN_TABLE_DUMP, a, b, c)\<close>.\<close>

definition BEGIN_TABLE_DUMP :: "string \<Rightarrow> string \<Rightarrow> string \<Rightarrow> string" where
  "BEGIN_TABLE_DUMP a b c = go_lines
    ['''',
     ''--'',
     ''-- Data for Name: '' @ a @ ''; Type: TABLE DATA'',
     ''--'',
     '''',
     ''COPY '' @ b @ '' ('' @ c @ '') FROM stdin;'']"

definition END_TABLE_DUMP :: string where
  "END_TABLE_DUMP = go_lines [[CHR 0x5C] @ ''.'']"

definition SQL_CMD_DUMP :: "string \<Rightarrow> string" where
  "SQL_CMD_DUMP v = [CHR 0x0A] @ v @ '';'' @ [CHR 0x0A]"

subsection \<open>Data model\<close>

datatype error = Error string

record ManifestItem =
  Table :: string
  Query :: string
  Columns :: "string list"
  PostActions :: "string list"

record Manifest =
  Vars :: "string \<rightharpoonup> string"
  Tables :: "ManifestItem list"

text \<open>
  The database behind \<open>*pg.DB\<close>, as far as the two catalog queries and \<open>CopyTo\<close>
  read it. A relation is identified with its name as \<open>regclass\<close> prints it.
  \<open>Query_err\<close> is the \<open>err\<close> of \<open>db.Query\<close> for one of the two statements and its
  parameter (an unknown relation in \<open>?::regclass\<close>, a lost connection);
  \<open>CopyTo db sql\<close> is the bytes that \<open>db.CopyTo(w, sql)\<close> streams to \<open>w\<close> and its
  \<open>err\<close>. The database does not change during a run: a statement gives the same
  result each time it is sent.
\<close>

record pg_attribute_row =
  attrelid :: string
  attname :: string
  attnum :: int
  attisdropped :: bool

record pg_constraint_row =
  conrelid :: string
  confrelid :: string
  contype :: char

datatype statement = Select_attname | Select_confrelid

record DB =
  Query_err :: "statement \<Rightarrow> string \<Rightarrow> error option"
  pg_attribute :: "pg_attribute_row list"
  pg_constraint :: "pg_constraint_row list"
  CopyTo :: "string \<Rightarrow> string \<times> error option"

record ManifestIterator =
  m_db :: DB
  m_manifest :: Manifest
  m_todo :: "string \<rightharpoonup> ManifestItem"
  m_done :: "string \<rightharpoonup> ManifestItem"
  m_stack :: "string list"

subsection \<open>Schema inspector\<close>

text \<open>
  \<^verbatim>\<open>SELECT attname as colname FROM pg_catalog.pg_attribute
  WHERE attrelid = ?::regclass AND attnum > 0 AND attisdropped = FALSE ORDER BY attnum\<close>
\<close>

definition getTableCols :: "DB \<Rightarrow> string \<Rightarrow> error + string list" where
  "getTableCols db table =
     (case Query_err db Select_attname table of
        Some err \<Rightarrow> Inl err
      | None \<Rightarrow>
          Inr (map attname
                (sort_key attnum
                  (filter (\<lambda>r. attrelid r = table \<and> attnum r > 0 \<and> attisdropped r = False)
                    (pg_attribute db)))))"

text \<open>
  \<^verbatim>\<open>SELECT confrelid::regclass AS tablename FROM pg_catalog.pg_constraint
  WHERE conrelid = ?::regclass AND contype = 'f'\<close>
  (no \<open>ORDER BY\<close> and no \<open>DISTINCT\<close>: catalog order, one row per constraint).
\<close>

definition getTableDeps :: "DB \<Rightarrow> string \<Rightarrow> error + string list" where
  "getTableDeps db table =
     (case Query_err db Select_confrelid table of
        Some err \<Rightarrow> Inl err
      | None \<Rightarrow>
          Inr (map confrelid
                (filter (\<lambda>r. conrelid r = table \<and> contype r = CHR ''f'')
                  (pg_constraint db))))"

subsection \<open>Dependency resolver\<close>

text \<open>\<open>ManifestItem{Table: dep}\<close>: the other fields have their zero values.\<close>

definition ManifestItem_default :: "string \<Rightarrow> ManifestItem" where
  "ManifestItem_default dep = \<lparr>Table = dep, Query = [], Columns = [], PostActions = []\<rparr>"

text \<open>Reading a Go map at a key: the zero value when the key is absent.\<close>

definition map_index :: "(string \<rightharpoonup> ManifestItem) \<Rightarrow> string \<Rightarrow> ManifestItem" where
  "map_index mp k = (case mp k of Some v \<Rightarrow> v | None \<Rightarrow> ManifestItem_default [])"

definition NewManifestIterator :: "DB \<Rightarrow> Manifest \<Rightarrow> ManifestIterator" where
  "NewManifestIterator db manifest =
     foldl (\<lambda>m item. m\<lparr>m_stack := m_stack m @ [Table item],
                         m_todo := (m_todo m)(Table item \<mapsto> item)\<rparr>)
       \<lparr>m_db = db, m_manifest = manifest, m_todo = Map.empty, m_done = Map.empty, m_stack = []\<rparr>
       (Tables manifest)"

text \<open>The loop \<open>for _, dep := range deps\<close> of \<open>Next\<close>, on the pair \<open>(m.todo, todoDeps)\<close>.\<close>

fun Next_deps ::
  "(string \<rightharpoonup> ManifestItem) \<Rightarrow> string \<Rightarrow> string list \<Rightarrow>
   (string \<rightharpoonup> ManifestItem) \<times> string list \<Rightarrow> (string \<rightharpoonup> ManifestItem) \<times> string list" where
  "Next_deps dn table [] (td, todoDeps) = (td, todoDeps)"
| "Next_deps dn table (dep # deps) (td, todoDeps) =
     (let is_todo = (td dep \<noteq> None);
          is_done = (dn dep \<noteq> None);
          td1 = (if \<not> is_todo \<and> \<not> is_done then td(dep \<mapsto> ManifestItem_default dep) else td);
          todoDeps1 = (if td1 dep \<noteq> None \<and> table \<noteq> dep then todoDeps @ [dep] else todoDeps)
      in Next_deps dn table deps (td1, todoDeps1))"

text \<open>
  The result of \<open>Next\<close> is \<open>Inl err\<close> for \<open>(nil, err)\<close>, \<open>Inr None\<close> for \<open>(nil, nil)\<close>
  and \<open>Inr (Some v)\<close> for \<open>(&v, nil)\<close>, together with the iterator as the call leaves
  it.
\<close>

partial_function (option) Next ::
  "ManifestIterator \<Rightarrow> ((error + ManifestItem option) \<times> ManifestIterator) option" where
  "Next m =
     (case m_stack m of
        [] \<Rightarrow> Some (Inr None, m)
      | table # rest \<Rightarrow>
          (let m1 = m\<lparr>m_stack := rest\<rparr> in
           if m_todo m1 table = None then Next m1
           else
             (case getTableDeps (m_db m1) table of
                Inl err \<Rightarrow> Some (Inl err, m1)
              | Inr deps \<Rightarrow>
                  (let r = Next_deps (m_done m1) table deps (m_todo m1, []);
                       m2 = m1\<lparr>m_todo := fst r\<rparr>;
                       todoDeps = snd r
                   in if length todoDeps > 0
                      then Next (m2\<lparr>m_stack := todoDeps @ ([table] @ m_stack m2)\<rparr>)
                      else
                        (let result = map_index (m_todo m2) table
                         in Some (Inr (Some result),
                                  m2\<lparr>m_done := (m_done m2)(table \<mapsto> map_index (m_todo m2) table),
                                     m_todo := (m_todo m2)(table := None)\<rparr>))))))"

declare Next.simps [code]

text \<open>
  The first \<open>n\<close> successive calls of \<open>Next\<close> on one iterator: their results in order
  and the iterator after the last one; \<open>None\<close> when one of the calls never returns.
\<close>

fun Next_calls ::
  "nat \<Rightarrow> ManifestIterator \<Rightarrow> ((error + ManifestItem option) list \<times> ManifestIterator) option" where
  "Next_calls 0 m = Some ([], m)"
| "Next_calls (Suc n) m =
     (case Next m of
        None \<Rightarrow> None
      | Some (r, m') \<Rightarrow>
          (case Next_calls n m' of
             None \<Rightarrow> None
           | Some (rs, m'') \<Rightarrow> Some (r # rs, m'')))"

text \<open>The items among the results, and the names of the tables returned.\<close>

fun returned :: "(error + ManifestItem option) list \<Rightarrow> ManifestItem list" where
  "returned [] = []"
| "returned (Inr (Some v) # rs) = v # returned rs"
| "returned (_ # rs) = returned rs"

definition returned_names :: "(error + ManifestItem option) list \<Rightarrow> string list" where
  "returned_names rs = map Table (returned rs)"

subsection \<open>Dump writer\<close>

text \<open>
  The sink \<open>w\<close> is the list of bytes written to it so far. \<open>fmt.Fprintf\<close>'s results
  are dropped by the code; the sink is taken to accept every write.
\<close>

definition beginDump :: "string \<Rightarrow> string" where
  "beginDump w = w @ BEGIN_DUMP"

definition endDump :: "string \<Rightarrow> string" where
  "endDump w = w @ END_DUMP"

text \<open>
  \<open>strconv.Quote\<close> on the bytes of a name: a double-quoted Go string literal. Bytes
  from \<open>0x80\<close> on are copied, as Go does for the UTF-8 encoding of a printable rune.
\<close>

definition hex2 :: "char \<Rightarrow> string" where
  "hex2 c = [''0123456789abcdef'' ! (of_char c div 16), ''0123456789abcdef'' ! (of_char c mod 16)]"

definition appendEscapedRune :: "char \<Rightarrow> string" where
  "appendEscapedRune c =
     (if c = CHR 0x22 \<or> c = CHR 0x5C then [CHR 0x5C, c]
      else if (0x20::nat) \<le> of_char c \<and> of_char c \<noteq> (0x7F::nat) then [c]
      else if c = CHR 0x07 then [CHR 0x5C] @ ''a''
      else if c = CHR 0x08 then [CHR 0x5C] @ ''b''
      else if c = CHR 0x0C then [CHR 0x5C] @ ''f''
      else if c = CHR 0x0A then [CHR 0x5C] @ ''n''
      else if c = CHR 0x0D then [CHR 0x5C] @ ''r''
      else if c = CHR 0x09 then [CHR 0x5C] @ ''t''
      else if c = CHR 0x0B then [CHR 0x5C] @ ''v''
      else [CHR 0x5C] @ ''x'' @ hex2 c)"

definition strconv_Quote :: "string \<Rightarrow> string" where
  "strconv_Quote s = [CHR 0x22] @ concat (map appendEscapedRune s) @ [CHR 0x22]"

text \<open>\<open>strings.Join\<close>.\<close>

fun strings_Join :: "string list \<Rightarrow> string \<Rightarrow> string" where
  "strings_Join [] sep = []"
| "strings_Join [x] sep = x"
| "strings_Join (x # y # ys) sep = x @ sep @ strings_Join (y # ys) sep"

definition beginTable :: "string \<Rightarrow> string \<Rightarrow> string list \<Rightarrow> string" where
  "beginTable w table columns =
     (let quoted = foldl (\<lambda>quoted v. quoted @ [strconv_Quote v]) [] columns;
          colstr = strings_Join quoted '', ''
      in w @ BEGIN_TABLE_DUMP table table colstr)"

definition endTable :: "string \<Rightarrow> string" where
  "endTable w = w @ END_TABLE_DUMP"

definition dumpSqlCmd :: "string \<Rightarrow> string \<Rightarrow> string" where
  "dumpSqlCmd w v = w @ SQL_CMD_DUMP v"

definition dumpTable :: "string \<Rightarrow> DB \<Rightarrow> string \<Rightarrow> string \<times> error option" where
  "dumpTable w db table =
     (let sql = ''COPY '' @ table @ '' TO STDOUT'';
          r = CopyTo db sql
      in (w @ fst r, snd r))"

text \<open>
  The template engine (\<open>mustache.Render\<close>, a third-party library) is a parameter of the
  writer: it takes the template and the variables and returns the rendered text or an
  error.
\<close>

type_synonym render = "string \<Rightarrow> (string \<rightharpoonup> string) \<Rightarrow> error + string"

text \<open>
  The body of the \<open>for\<close> loop of \<open>MakeDump\<close> once \<open>Next\<close> has returned the item \<open>v\<close>:
  the bytes in the sink afterwards, and the error the body returns with, if any.
\<close>

definition MakeDump_item ::
  "render \<Rightarrow> DB \<Rightarrow> Manifest \<Rightarrow> ManifestItem \<Rightarrow> string \<Rightarrow> string \<times> error option" where
  "MakeDump_item render db manifest v w =
     (case (if length (Columns v) = 0 then getTableCols db (Table v) else Inr (Columns v)) of
        Inl err \<Rightarrow> (w, Some err)
      | Inr cols \<Rightarrow>
          (let w1 = beginTable w (Table v) cols;
               r = (if Query v = []
                    then dumpTable w1 db (Table v)
                    else (case render (Query v) (Vars manifest) of
                            Inl err \<Rightarrow> (w1, Some err)
                          | Inr query \<Rightarrow> dumpTable w1 db (''('' @ query @ '')'')))
           in case snd r of
                Some err \<Rightarrow> (fst r, Some err)
              | None \<Rightarrow> (foldl dumpSqlCmd (endTable (fst r)) (PostActions v), None)))"

partial_function (option) MakeDump_loop ::
  "render \<Rightarrow> DB \<Rightarrow> Manifest \<Rightarrow> ManifestIterator \<Rightarrow> string \<Rightarrow> (string \<times> error option) option" where
  "MakeDump_loop render db manifest iterator w =
     (case Next iterator of
        None \<Rightarrow> None
      | Some (Inl err, iterator') \<Rightarrow> Some (w, Some err)
      | Some (Inr None, iterator') \<Rightarrow> Some (w, None)
      | Some (Inr (Some v), iterator') \<Rightarrow>
          (case MakeDump_item render db manifest v w of
             (w', Some err) \<Rightarrow> Some (w', Some err)
           | (w', None) \<Rightarrow> MakeDump_loop render db manifest iterator' w'))"

declare MakeDump_loop.simps [code]

text \<open>
  \<open>MakeDump\<close>: the bytes written to the sink and the returned error (\<open>None\<close> for
  \<open>nil\<close>); the outer \<open>None\<close> is a run that never returns.
\<close>

definition MakeDump :: "render \<Rightarrow> DB \<Rightarrow> Manifest \<Rightarrow> (string \<times> error option) option" where
  "MakeDump render db manifest =
     (case MakeDump_loop render db manifest (NewManifestIterator db manifest) (beginDump []) of
        None \<Rightarrow> None
      | Some (w, Some err) \<Rightarrow> Some (w, Some err)
      | Some (w, None) \<Rightarrow> Some (endDump w, None))"

subsection \<open>Vocabulary of the proofs\<close>

text \<open>
  The loop over the dependencies in closed form: the \<open>todo\<close> map it leaves, and the
  \<open>todoDeps\<close> it collects (the outstanding dependencies).
\<close>

definition todo_with :: "(string \<rightharpoonup> ManifestItem) \<Rightarrow> (string \<rightharpoonup> ManifestItem) \<Rightarrow> string list \<Rightarrow> (string \<rightharpoonup> ManifestItem)" where
  "todo_with td dn deps =
     (\<lambda>k. if k \<in> set deps \<and> td k = None \<and> dn k = None then Some (ManifestItem_default k) else td k)"

definition outstanding :: "(string \<rightharpoonup> ManifestItem) \<Rightarrow> (string \<rightharpoonup> ManifestItem) \<Rightarrow> string \<Rightarrow> string list \<Rightarrow> string list" where
  "outstanding td dn table deps = filter (\<lambda>d. (td d \<noteq> None \<or> dn d = None) \<and> table \<noteq> d) deps"

text \<open>
  The foreign-key graph as the schema inspector reports it: an edge \<open>(t, d)\<close> when
  \<open>getTableDeps\<close> succeeds on \<open>t\<close> and lists \<open>d\<close>.
\<close>

definition Deps :: "DB \<Rightarrow> (string \<times> string) set" where
  "Deps db = {(t, d). \<exists>deps. getTableDeps db t = Inr deps \<and> d \<in> set deps}"

text \<open>
  The item a name stands for, given the \<open>todo\<close> map \<open>T0\<close> built from the manifest: its
  entry there, or the default entry. The invariant of the iterator between two steps.
\<close>

definition item_of :: "(string \<rightharpoonup> ManifestItem) \<Rightarrow> string \<Rightarrow> ManifestItem" where
  "item_of T0 k = (case T0 k of Some v \<Rightarrow> v | None \<Rightarrow> ManifestItem_default k)"

definition resolver_inv :: "(string \<rightharpoonup> ManifestItem) \<Rightarrow> ManifestIterator \<Rightarrow> bool" where
  "resolver_inv T0 m \<longleftrightarrow>
     dom (m_todo m) \<inter> dom (m_done m) = {} \<and>
     set (m_stack m) \<subseteq> dom (m_todo m) \<union> dom (m_done m) \<and>
     dom T0 \<subseteq> dom (m_todo m) \<union> dom (m_done m) \<and>
     (\<forall>k v. m_todo m k = Some v \<or> m_done m k = Some v \<longrightarrow> v = item_of T0 k) \<and>
     (\<forall>k v. T0 k = Some v \<longrightarrow> Table v = k) \<and>
     (\<forall>t\<in>dom (m_done m). \<exists>deps. getTableDeps (m_db m) t = Inr deps \<and> set deps \<subseteq> dom (m_done m))"

definition todo_on_stack :: "ManifestIterator \<Rightarrow> bool" where
  "todo_on_stack m \<longleftrightarrow> dom (m_todo m) \<subseteq> set (m_stack m)"

text \<open>Every dependency of a listed table, other than itself, is seen or listed earlier.\<close>

fun deps_first :: "DB \<Rightarrow> string set \<Rightarrow> string list \<Rightarrow> bool" where
  "deps_first db seen [] = True"
| "deps_first db seen (t # ts) =
     ((\<forall>d. (t, d) \<in> Deps db \<longrightarrow> d = t \<or> d \<in> seen) \<and> deps_first db (insert t seen) ts)"

text \<open>
  The termination measure, for the tables of a set \<open>R\<close>. \<open>cost\<close> bounds the steps a
  table needs: two of its own and those of its dependencies. A stack entry weighs 1 when
  all its dependencies are done or above it on the stack, and its cost otherwise.
\<close>

definition deps_of :: "DB \<Rightarrow> string \<Rightarrow> string list" where
  "deps_of db t = (case getTableDeps db t of Inr ds \<Rightarrow> ds | Inl _ \<Rightarrow> [])"

definition deps_in :: "string set \<Rightarrow> DB \<Rightarrow> string \<Rightarrow> string list" where
  "deps_in R db t = (if t \<in> R then deps_of db t else [])"

definition dep_below :: "string set \<Rightarrow> DB \<Rightarrow> (string \<times> string) set" where
  "dep_below R db = {(d, t). t \<in> R \<and> d \<noteq> t \<and> (t, d) \<in> Deps db}"

definition cost :: "string set \<Rightarrow> DB \<Rightarrow> string \<Rightarrow> nat" where
  "cost R db =
     wfrec (dep_below R db) (\<lambda>f t. 2 + sum_list (map f (filter (\<lambda>d. d \<noteq> t) (deps_in R db t))))"

fun weight :: "string set \<Rightarrow> DB \<Rightarrow> string set \<Rightarrow> string list \<Rightarrow> nat" where
  "weight R db Q [] = 0"
| "weight R db Q (t # ts) =
     (if \<forall>d\<in>set (deps_of db t). d = t \<or> d \<in> Q then 1 else cost R db t) +
     weight R db (insert t Q) ts"

definition measure_of :: "string set \<Rightarrow> ManifestIterator \<Rightarrow> nat" where
  "measure_of R m = weight R (m_db m) (dom (m_done m)) (m_stack m)"

text \<open>The \<open>todo\<close> map of a fresh iterator: the last entry of each name wins.\<close>

definition manifest_todo :: "Manifest \<Rightarrow> (string \<rightharpoonup> ManifestItem)" where
  "manifest_todo manifest = map_of (rev (map (\<lambda>i. (Table i, i)) (Tables manifest)))"

text \<open>The tables reachable from the manifest's tables along foreign keys.\<close>

definition reachable :: "DB \<Rightarrow> Manifest \<Rightarrow> string set" where
  "reachable db manifest = (Deps db)\<^sup>* `` (Table ` set (Tables manifest))"

text \<open>The foreign-key graph of a manifest: the edges that leave a reachable table.\<close>

definition manifest_graph :: "DB \<Rightarrow> Manifest \<Rightarrow> (string \<times> string) set" where
  "manifest_graph db manifest = {(t, d). (t, d) \<in> Deps db \<and> t \<in> reachable db manifest}"

definition within :: "string set \<Rightarrow> ManifestIterator \<Rightarrow> bool" where
  "within R m \<longleftrightarrow> dom (m_todo m) \<union> dom (m_done m) \<subseteq> R"

text \<open>Results that are all items.\<close>

abbreviation item_results :: "ManifestItem list \<Rightarrow> (error + ManifestItem option) list" where
  "item_results vs \<equiv> map (\<lambda>v. Inr (Some v)) vs"

subsection \<open>The template engine, from the specification\<close>

text \<open>
  Modelled from the spec: the templating capability. The engine itself (the mustache
  library) is not part of the repository's sources; the specification describes it as
  "simple name\<rightarrow>value text substitution" of named variables into a string, with the tag
  syntax \<open>{{name}}\<close> of its example. A name without a value is replaced by the empty
  text, and a tag that is not closed is an error.
\<close>

fun spec_subst :: "(string \<rightharpoonup> string) \<Rightarrow> string option \<Rightarrow> string \<Rightarrow> error + string" where
  "spec_subst vars None (c1 # c2 # cs) =
     (if c1 = CHR ''{'' \<and> c2 = CHR ''{'' then spec_subst vars (Some []) cs
      else map_sum id ((#) c1) (spec_subst vars None (c2 # cs)))"
| "spec_subst vars None cs = Inr cs"
| "spec_subst vars (Some name) (c1 # c2 # cs) =
     (if c1 = CHR ''}'' \<and> c2 = CHR ''}''
      then map_sum id ((@) (case vars name of Some val \<Rightarrow> val | None \<Rightarrow> [])) (spec_subst vars None cs)
      else spec_subst vars (Some (name @ [c1])) (c2 # cs))"
| "spec_subst vars (Some name) cs = Inl (Error ''unclosed tag'')"

definition spec_Render :: render where
  "spec_Render template vars = spec_subst vars None template"

subsection \<open>The framing as the specification lists it\<close>

text \<open>The preamble and the postamble as section 6 of the specification lists them, with
  the comment lines of the code in the place of its two placeholders.\<close>

definition section6_preamble :: string where
  "section6_preamble = go_lines
    [''--'',
     ''-- PostgreSQL database dump'',
     ''--'',
     '''',
     ''BEGIN;'',
     '''',
     ''SET statement_timeout = 0;'',
     ''SET lock_timeout = 0;'',
     ''SET client_encoding = 'UTF8';'',
     ''SET standard_conforming_strings = on;'',
     ''SET check_function_bodies = false;'',
     ''SET client_min_messages = warning;'',
     ''SET search_path = public, pg_catalog;'']"

definition section6_postamble :: string where
  "section6_postamble = go_lines
    [''COMMIT;'',
     '''',
     ''--'',
     ''-- PostgreSQL database dump complete'',
     ''--'']"

subsection \<open>Vocabulary of the writer's theorems\<close>



subsection \<open>Example databases\<close>

text \<open>A database with no catalog rows on which no statement fails.\<close>

definition db_none :: DB where
  "db_none = \<lparr>Query_err = (\<lambda>s t. None), pg_attribute = [], pg_constraint = [],
              CopyTo = (\<lambda>sql. ([], None))\<rparr>"

text \<open>
  A shop: orders reference users (twice) and products, products reference categories.
  The manifest lists \<open>orders\<close> twice and leaves \<open>products\<close> and \<open>categories\<close> out.
\<close>

definition db_shop :: DB where
  "db_shop =
     \<lparr>Query_err = (\<lambda>s t. if t \<in> set [''orders'', ''users'', ''products'', ''categories'']
                           then None else Some (Error ''relation does not exist'')),
      pg_attribute =
        [\<lparr>attrelid = ''users'', attname = ''name'', attnum = 3, attisdropped = False\<rparr>,
         \<lparr>attrelid = ''users'', attname = ''legacy'', attnum = 2, attisdropped = True\<rparr>,
         \<lparr>attrelid = ''orders'', attname = ''id'', attnum = 1, attisdropped = False\<rparr>,
         \<lparr>attrelid = ''users'', attname = ''ctid'', attnum = - 1, attisdropped = False\<rparr>,
         \<lparr>attrelid = ''users'', attname = ''id'', attnum = 1, attisdropped = False\<rparr>],
      pg_constraint =
        [\<lparr>conrelid = ''orders'', confrelid = ''users'', contype = CHR ''f''\<rparr>,
         \<lparr>conrelid = ''orders'', confrelid = ''-'', contype = CHR ''p''\<rparr>,
         \<lparr>conrelid = ''orders'', confrelid = ''products'', contype = CHR ''f''\<rparr>,
         \<lparr>conrelid = ''orders'', confrelid = ''users'', contype = CHR ''f''\<rparr>,
         \<lparr>conrelid = ''products'', confrelid = ''categories'', contype = CHR ''f''\<rparr>],
      CopyTo = (\<lambda>sql. (''<'' @ sql @ ''>'' @ [CHR 0x0A], None))\<rparr>"

definition orders_1 :: ManifestItem where
  "orders_1 = \<lparr>Table = ''orders'', Query = [], Columns = [], PostActions = []\<rparr>"

definition users_1 :: ManifestItem where
  "users_1 = \<lparr>Table = ''users'', Query = ''SELECT * FROM {{t}} WHERE active'',
               Columns = [''id'', ''name''], PostActions = []\<rparr>"

definition orders_2 :: ManifestItem where
  "orders_2 = \<lparr>Table = ''orders'', Query = [], Columns = [''id''],
                PostActions = [''ANALYZE orders'']\<rparr>"

definition mf_shop :: Manifest where
  "mf_shop = \<lparr>Vars = [''t'' \<mapsto> ''users''], Tables = [orders_1, users_1, orders_2]\<rparr>"

definition shop_done :: "string \<rightharpoonup> ManifestItem" where
  "shop_done = [''users'' \<mapsto> users_1, ''categories'' \<mapsto> ManifestItem_default ''categories'',
                ''products'' \<mapsto> ManifestItem_default ''products'', ''orders'' \<mapsto> orders_2]"

text \<open>Two tables that reference each other, both in the manifest.\<close>

definition db_cycle :: DB where
  "db_cycle =
     \<lparr>Query_err = (\<lambda>s t. None), pg_attribute = [],
      pg_constraint =
        [\<lparr>conrelid = ''a'', confrelid = ''b'', contype = CHR ''f''\<rparr>,
         \<lparr>conrelid = ''b'', confrelid = ''a'', contype = CHR ''f''\<rparr>],
      CopyTo = (\<lambda>sql. ([], None))\<rparr>"

definition mf_cycle :: Manifest where
  "mf_cycle = \<lparr>Vars = Map.empty, Tables = [ManifestItem_default ''a'', ManifestItem_default ''b'']\<rparr>"

text \<open>Further manifests, items, databases that fail, and iterators in mid-run.\<close>

definition mf_empty :: Manifest where
  "mf_empty = \<lparr>Vars = Map.empty, Tables = []\<rparr>"

definition shop_dump :: string where
  "shop_dump =
     BEGIN_DUMP
     @ BEGIN_TABLE_DUMP ''users'' ''users''
         ([CHR 0x22] @ ''id'' @ [CHR 0x22] @ '', '' @ [CHR 0x22] @ ''name'' @ [CHR 0x22])
     @ ''<COPY (SELECT * FROM users WHERE active) TO STDOUT>'' @ [CHR 0x0A] @ END_TABLE_DUMP
     @ BEGIN_TABLE_DUMP ''categories'' ''categories'' []
     @ ''<COPY categories TO STDOUT>'' @ [CHR 0x0A] @ END_TABLE_DUMP
     @ BEGIN_TABLE_DUMP ''products'' ''products'' []
     @ ''<COPY products TO STDOUT>'' @ [CHR 0x0A] @ END_TABLE_DUMP
     @ BEGIN_TABLE_DUMP ''orders'' ''orders'' ([CHR 0x22] @ ''id'' @ [CHR 0x22])
     @ ''<COPY orders TO STDOUT>'' @ [CHR 0x0A] @ END_TABLE_DUMP
     @ SQL_CMD_DUMP ''ANALYZE orders''
     @ END_DUMP"










section \<open>The resolver\<close>

subsection \<open>Unfolding \<open>Next\<close>\<close>

lemma Next_empty: "m_stack m = [] \<Longrightarrow> Next m = Some (Inr None, m)"
  by (subst Next.simps) simp

lemma Next_cases_induct [consumes 1, case_names stop skip fail expand emit]:
  assumes run: "Next m = Some r"
    and stop: "\<And>m. m_stack m = [] \<Longrightarrow> P m (Inr None, m)"
    and skip: "\<And>m table rest r.
        m_stack m = table # rest \<Longrightarrow> m_todo m table = None \<Longrightarrow>
        P (m\<lparr>m_stack := rest\<rparr>) r \<Longrightarrow> P m r"
    and fail: "\<And>m table rest err.
        m_stack m = table # rest \<Longrightarrow> m_todo m table \<noteq> None \<Longrightarrow>
        getTableDeps (m_db m) table = Inl err \<Longrightarrow> P m (Inl err, m\<lparr>m_stack := rest\<rparr>)"
    and expand: "\<And>m table rest deps td todoDeps r.
        m_stack m = table # rest \<Longrightarrow> m_todo m table \<noteq> None \<Longrightarrow>
        getTableDeps (m_db m) table = Inr deps \<Longrightarrow>
        Next_deps (m_done m) table deps (m_todo m, []) = (td, todoDeps) \<Longrightarrow>
        todoDeps \<noteq> [] \<Longrightarrow>
        P (m\<lparr>m_todo := td, m_stack := todoDeps @ table # rest\<rparr>) r \<Longrightarrow> P m r"
    and emit: "\<And>m table rest deps td.
        m_stack m = table # rest \<Longrightarrow> m_todo m table \<noteq> None \<Longrightarrow>
        getTableDeps (m_db m) table = Inr deps \<Longrightarrow>
        Next_deps (m_done m) table deps (m_todo m, []) = (td, []) \<Longrightarrow>
        P m (Inr (Some (map_index td table)),
             m\<lparr>m_todo := td(table := None),
               m_done := (m_done m)(table \<mapsto> map_index td table), m_stack := rest\<rparr>)"
  shows "P m r"
proof (rule Next.raw_induct[OF _ run], goal_cases)
  case (1 Next' m r)
  show ?case
  proof (cases "m_stack m")
    case Nil
    with 1(2) stop[OF Nil] show ?thesis by auto
  next
    case (Cons table rest)
    show ?thesis
    proof (cases "m_todo m table = None")
      case True
      with 1(2) Cons have "Next' (m\<lparr>m_stack := rest\<rparr>) = Some r" by simp
      from skip[OF Cons True 1(1)[OF this]] show ?thesis .
    next
      case False
      show ?thesis
      proof (cases "getTableDeps (m_db m) table")
        case (Inl err)
        with 1(2) Cons False fail[OF Cons False Inl] show ?thesis by auto
      next
        case (Inr deps)
        obtain td todoDeps where nd: "Next_deps (m_done m) table deps (m_todo m, []) = (td, todoDeps)"
          by (cases "Next_deps (m_done m) table deps (m_todo m, [])")
        show ?thesis
        proof (cases "todoDeps = []")
          case True
          have "m\<lparr>m_stack := rest, m_done := (m_done m)(table \<mapsto> map_index td table),
                  m_todo := td(table := None)\<rparr> =
                m\<lparr>m_todo := td(table := None),
                  m_done := (m_done m)(table \<mapsto> map_index td table), m_stack := rest\<rparr>"
            by (cases m) simp
          with True 1(2) Cons False Inr nd emit[OF Cons False Inr, of td] show ?thesis
            by (auto simp add: Let_def)
        next
          case ne: False
          with 1(2) Cons False Inr nd have "Next' (m\<lparr>m_todo := td, m_stack := todoDeps @ table # rest\<rparr>) = Some r"
            by (simp add: Let_def)
          from expand[OF Cons False Inr nd ne 1(1)[OF this]] show ?thesis .
        qed
      qed
    qed
  qed
qed

lemma Next_nil_stack:
  "Next m = Some r \<Longrightarrow> fst r = Inr None \<longrightarrow> m_stack (snd r) = []"
  by (induction rule: Next_cases_induct) simp_all

lemma Next_calls_exhausted:
  "m_stack m = [] \<Longrightarrow> Next_calls n m = Some (replicate n (Inr None), m)"
  by (induction n) (simp_all add: Next_empty)

text \<open>
  C10. Once \<open>Next\<close> has returned the end-of-sequence signal \<open>(nil, nil)\<close>, the next
  call returns it again and leaves the iterator as it is, and so does every further
  call: \<open>n\<close> successive calls all return end-of-sequence and the iterator (todo, done,
  stack) is unchanged.
\<close>

theorem Next_exhausted_stable:
  assumes "Next m = Some (Inr None, m')"
  shows "Next m' = Some (Inr None, m') \<and>
         (\<forall>n. Next_calls n m' = Some (replicate n (Inr None), m'))"
proof -
  from Next_nil_stack[OF assms] have "m_stack m' = []" by simp
  then show ?thesis by (simp add: Next_empty Next_calls_exhausted)
qed

lemma Next_Nil:
  "Next \<lparr>m_db = db, m_manifest = mf, m_todo = td, m_done = dn, m_stack = []\<rparr> =
     Some (Inr None, \<lparr>m_db = db, m_manifest = mf, m_todo = td, m_done = dn, m_stack = []\<rparr>)"
  by (simp add: Next_empty)

lemma Next_Cons:
  "Next \<lparr>m_db = db, m_manifest = mf, m_todo = td, m_done = dn, m_stack = table # rest\<rparr> =
     (if td table = None
      then Next \<lparr>m_db = db, m_manifest = mf, m_todo = td, m_done = dn, m_stack = rest\<rparr>
      else
        (case getTableDeps db table of
           Inl err \<Rightarrow>
             Some (Inl err, \<lparr>m_db = db, m_manifest = mf, m_todo = td, m_done = dn, m_stack = rest\<rparr>)
         | Inr deps \<Rightarrow>
             (case Next_deps dn table deps (td, []) of
                (td', todoDeps) \<Rightarrow>
                  if todoDeps \<noteq> []
                  then Next \<lparr>m_db = db, m_manifest = mf, m_todo = td', m_done = dn,
                              m_stack = todoDeps @ table # rest\<rparr>
                  else Some (Inr (Some (map_index td' table)),
                             \<lparr>m_db = db, m_manifest = mf, m_todo = td'(table := None),
                              m_done = dn(table \<mapsto> map_index td' table), m_stack = rest\<rparr>))))"
  by (subst Next.simps) (simp add: Let_def split: prod.splits sum.splits)

theorem Next_exhausted_stable_witness:
  "Next \<lparr>m_db = db_none, m_manifest = \<lparr>Vars = Map.empty, Tables = []\<rparr>, m_todo = Map.empty,
         m_done = [''a'' \<mapsto> ManifestItem_default ''a''], m_stack = [''a'', ''a'']\<rparr>
     = Some (Inr None, \<lparr>m_db = db_none, m_manifest = \<lparr>Vars = Map.empty, Tables = []\<rparr>,
         m_todo = Map.empty, m_done = [''a'' \<mapsto> ManifestItem_default ''a''], m_stack = []\<rparr>) \<and>
   Next \<lparr>m_db = db_none, m_manifest = \<lparr>Vars = Map.empty, Tables = []\<rparr>,
         m_todo = Map.empty, m_done = [''a'' \<mapsto> ManifestItem_default ''a''], m_stack = []\<rparr>
     = Some (Inr None, \<lparr>m_db = db_none, m_manifest = \<lparr>Vars = Map.empty, Tables = []\<rparr>,
         m_todo = Map.empty, m_done = [''a'' \<mapsto> ManifestItem_default ''a''], m_stack = []\<rparr>) \<and>
   Next_calls 2 \<lparr>m_db = db_none, m_manifest = \<lparr>Vars = Map.empty, Tables = []\<rparr>,
         m_todo = Map.empty, m_done = [''a'' \<mapsto> ManifestItem_default ''a''], m_stack = []\<rparr>
     = Some ([Inr None, Inr None], \<lparr>m_db = db_none, m_manifest = \<lparr>Vars = Map.empty, Tables = []\<rparr>,
         m_todo = Map.empty, m_done = [''a'' \<mapsto> ManifestItem_default ''a''], m_stack = []\<rparr>)"
proof -
  let ?m = "\<lparr>m_db = db_none, m_manifest = \<lparr>Vars = Map.empty, Tables = []\<rparr>, m_todo = Map.empty,
         m_done = [''a'' \<mapsto> ManifestItem_default ''a''], m_stack = [''a'', ''a'']\<rparr>"
  let ?m' = "\<lparr>m_db = db_none, m_manifest = \<lparr>Vars = Map.empty, Tables = []\<rparr>,
         m_todo = Map.empty, m_done = [''a'' \<mapsto> ManifestItem_default ''a''], m_stack = []\<rparr>"
  have run: "Next ?m = Some (Inr None, ?m')"
    by (simp add: Next_Cons Next_Nil)
  from Next_exhausted_stable[OF run] have "Next ?m' = Some (Inr None, ?m')"
    and "Next_calls 2 ?m' = Some (replicate 2 (Inr None), ?m')" by blast+
  with run show ?thesis by (simp add: numeral_2_eq_2)
qed

subsection \<open>The steps of \<open>Next\<close>\<close>

lemma Next_deps_closed:
  "Next_deps dn table deps (td, acc) = (todo_with td dn deps, acc @ outstanding td dn table deps)"
proof (induction deps arbitrary: td acc)
  case Nil
  then show ?case by (simp add: todo_with_def outstanding_def)
next
  case (Cons dep deps)
  let ?td1 = "if td dep = None \<and> dn dep = None then td(dep \<mapsto> ManifestItem_default dep) else td"
  have a: "todo_with ?td1 dn deps = todo_with td dn (dep # deps)"
    by (auto simp: todo_with_def fun_eq_iff)
  have b: "outstanding ?td1 dn table deps = outstanding td dn table deps"
    unfolding outstanding_def by (rule filter_cong) auto
  have c: "(?td1 dep \<noteq> None) = (td dep \<noteq> None \<or> dn dep = None)" by auto
  show ?case
    unfolding Next_deps.simps Let_def
    apply (simp only: not_not de_Morgan_disj[symmetric] Cons.IH)
    using a b c by (auto simp: outstanding_def)
qed

lemma outstanding_Nil_todo_with:
  assumes "outstanding td dn table deps = []" and "td table \<noteq> None"
  shows "todo_with td dn deps = td"
proof (rule ext)
  fix k
  from assms(1) have "\<forall>d\<in>set deps. \<not> ((td d \<noteq> None \<or> dn d = None) \<and> table \<noteq> d)"
    by (simp add: outstanding_def filter_empty_conv)
  with assms(2) show "todo_with td dn deps k = td k"
    by (auto simp: todo_with_def)
qed

lemma Next_skip:
  "m_stack m = table # rest \<Longrightarrow> m_todo m table = None \<Longrightarrow> Next m = Next (m\<lparr>m_stack := rest\<rparr>)"
  by (subst Next.simps) simp

lemma Next_fail:
  "m_stack m = table # rest \<Longrightarrow> m_todo m table \<noteq> None \<Longrightarrow>
   getTableDeps (m_db m) table = Inl err \<Longrightarrow> Next m = Some (Inl err, m\<lparr>m_stack := rest\<rparr>)"
  by (subst Next.simps) auto

lemma Next_expand:
  "m_stack m = table # rest \<Longrightarrow> m_todo m table \<noteq> None \<Longrightarrow>
   getTableDeps (m_db m) table = Inr deps \<Longrightarrow>
   outstanding (m_todo m) (m_done m) table deps \<noteq> [] \<Longrightarrow>
   Next m = Next (m\<lparr>m_todo := todo_with (m_todo m) (m_done m) deps,
                     m_stack := outstanding (m_todo m) (m_done m) table deps @ table # rest\<rparr>)"
  by (subst Next.simps) (auto simp: Next_deps_closed Let_def)

lemma Next_emit:
  assumes "m_stack m = table # rest" and "m_todo m table = Some v"
    and "getTableDeps (m_db m) table = Inr deps"
    and "outstanding (m_todo m) (m_done m) table deps = []"
  shows "Next m = Some (Inr (Some v),
           m\<lparr>m_todo := (m_todo m)(table := None), m_done := (m_done m)(table \<mapsto> v),
             m_stack := rest\<rparr>)"
proof -
  from assms have tw: "todo_with (m_todo m) (m_done m) deps = m_todo m"
    by (intro outstanding_Nil_todo_with) auto
  have "m\<lparr>m_stack := rest, m_done := (m_done m)(table \<mapsto> v), m_todo := (m_todo m)(table := None)\<rparr>
      = m\<lparr>m_todo := (m_todo m)(table := None), m_done := (m_done m)(table \<mapsto> v), m_stack := rest\<rparr>"
    by (cases m) simp
  with assms tw show ?thesis
    by (subst Next.simps) (auto simp: Next_deps_closed Let_def map_index_def)
qed

lemma Next_induct [consumes 1, case_names stop skip fail expand emit]:
  assumes run: "Next m = Some r"
    and stop: "\<And>m. m_stack m = [] \<Longrightarrow> P m (Inr None, m)"
    and skip: "\<And>m table rest r.
        m_stack m = table # rest \<Longrightarrow> m_todo m table = None \<Longrightarrow>
        P (m\<lparr>m_stack := rest\<rparr>) r \<Longrightarrow> P m r"
    and fail: "\<And>m table rest v err.
        m_stack m = table # rest \<Longrightarrow> m_todo m table = Some v \<Longrightarrow>
        getTableDeps (m_db m) table = Inl err \<Longrightarrow> P m (Inl err, m\<lparr>m_stack := rest\<rparr>)"
    and expand: "\<And>m table rest v deps r.
        m_stack m = table # rest \<Longrightarrow> m_todo m table = Some v \<Longrightarrow>
        getTableDeps (m_db m) table = Inr deps \<Longrightarrow>
        outstanding (m_todo m) (m_done m) table deps \<noteq> [] \<Longrightarrow>
        P (m\<lparr>m_todo := todo_with (m_todo m) (m_done m) deps,
             m_stack := outstanding (m_todo m) (m_done m) table deps @ table # rest\<rparr>) r \<Longrightarrow>
        P m r"
    and emit: "\<And>m table rest v deps.
        m_stack m = table # rest \<Longrightarrow> m_todo m table = Some v \<Longrightarrow>
        getTableDeps (m_db m) table = Inr deps \<Longrightarrow>
        outstanding (m_todo m) (m_done m) table deps = [] \<Longrightarrow>
        P m (Inr (Some v),
             m\<lparr>m_todo := (m_todo m)(table := None), m_done := (m_done m)(table \<mapsto> v),
               m_stack := rest\<rparr>)"
  shows "P m r"
  using run
proof (induction rule: Next_cases_induct)
  case (stop m)
  then show ?case by (rule assms(2))
next
  case (skip m table rest r)
  then show ?case by (rule assms(3))
next
  case (fail m table rest err)
  then show ?case using assms(4) by auto
next
  case (expand m table rest deps td todoDeps r)
  from expand(2) obtain v where v: "m_todo m table = Some v" by auto
  from expand(4) have td: "td = todo_with (m_todo m) (m_done m) deps"
    and ts: "todoDeps = outstanding (m_todo m) (m_done m) table deps"
    by (simp_all add: Next_deps_closed)
  show ?case
    using assms(5)[OF expand(1) v expand(3)] expand(5,6) unfolding td ts by blast
next
  case (emit m table rest deps td)
  from emit(2) obtain v where v: "m_todo m table = Some v" by auto
  from emit(4) have ts: "outstanding (m_todo m) (m_done m) table deps = []"
    and td: "td = todo_with (m_todo m) (m_done m) deps"
    by (simp_all add: Next_deps_closed)
  from ts v have "td = m_todo m" unfolding td by (intro outstanding_Nil_todo_with) auto
  with assms(6)[OF emit(1) v emit(3) ts] v show ?case
    by (simp add: map_index_def)
qed

subsection \<open>The invariant\<close>

lemma item_of_Table: "\<forall>k v. T0 k = Some v \<longrightarrow> Table v = k \<Longrightarrow> Table (item_of T0 k) = k"
  by (auto simp: item_of_def ManifestItem_default_def split: option.splits)

lemma dom_todo_with: "dom (todo_with td dn deps) = dom td \<union> (set deps - dom dn)"
  by (auto simp: todo_with_def dom_def)

lemma todo_with_cases:
  "todo_with td dn deps k = Some v \<Longrightarrow>
     td k = Some v \<or> (td k = None \<and> dn k = None \<and> k \<in> set deps \<and> v = ManifestItem_default k)"
  by (auto simp: todo_with_def split: if_splits)

lemma set_outstanding:
  "set (outstanding td dn table deps) = {d \<in> set deps. (td d \<noteq> None \<or> dn d = None) \<and> table \<noteq> d}"
  by (auto simp: outstanding_def)

lemma outstanding_Nil_done:
  "outstanding td dn table deps = [] \<Longrightarrow> d \<in> set deps \<Longrightarrow> d \<noteq> table \<Longrightarrow> td d = None \<and> dn d \<noteq> None"
  by (auto simp: outstanding_def filter_empty_conv)

lemma inv_skip:
  "resolver_inv T0 m \<Longrightarrow> m_stack m = table # rest \<Longrightarrow> resolver_inv T0 (m\<lparr>m_stack := rest\<rparr>)"
  by (auto simp: resolver_inv_def)

lemma inv_expand:
  assumes "resolver_inv T0 m" "m_stack m = table # rest" "m_todo m table = Some v"
  shows "resolver_inv T0 (m\<lparr>m_todo := todo_with (m_todo m) (m_done m) deps,
             m_stack := outstanding (m_todo m) (m_done m) table deps @ table # rest\<rparr>)"
proof -
  let ?td = "todo_with (m_todo m) (m_done m) deps"
  from assms(1) have
    d: "dom (m_todo m) \<inter> dom (m_done m) = {}" and
    s: "set (m_stack m) \<subseteq> dom (m_todo m) \<union> dom (m_done m)" and
    t: "dom T0 \<subseteq> dom (m_todo m) \<union> dom (m_done m)" and
    i: "\<forall>k v. m_todo m k = Some v \<or> m_done m k = Some v \<longrightarrow> v = item_of T0 k" and
    k: "\<forall>k v. T0 k = Some v \<longrightarrow> Table v = k" and
    c: "\<forall>t\<in>dom (m_done m). \<exists>deps. getTableDeps (m_db m) t = Inr deps \<and> set deps \<subseteq> dom (m_done m)"
    by (simp_all add: resolver_inv_def)
  have 1: "dom ?td \<inter> dom (m_done m) = {}" using d by (auto simp: dom_todo_with)
  have 2: "set (outstanding (m_todo m) (m_done m) table deps @ table # rest) \<subseteq> dom ?td \<union> dom (m_done m)"
    using s assms(2,3) by (auto simp: dom_todo_with set_outstanding)
  have 3: "dom T0 \<subseteq> dom ?td \<union> dom (m_done m)" using t by (auto simp: dom_todo_with)
  have 4: "\<forall>k v. ?td k = Some v \<or> m_done m k = Some v \<longrightarrow> v = item_of T0 k"
  proof (intro allI impI)
    fix k v assume "?td k = Some v \<or> m_done m k = Some v"
    then consider "m_todo m k = Some v \<or> m_done m k = Some v"
      | "m_todo m k = None" "m_done m k = None" "v = ManifestItem_default k"
      by (auto dest: todo_with_cases)
    then show "v = item_of T0 k"
    proof cases
      case 1 with i show ?thesis by blast
    next
      case 2
      with t have "T0 k = None" by (auto simp: dom_def subset_iff)
      with 2 show ?thesis by (simp add: item_of_def)
    qed
  qed
  show ?thesis
    unfolding resolver_inv_def using 1 2 3 4 k c by simp
qed

lemma inv_emit:
  assumes "resolver_inv T0 m" "m_stack m = table # rest" "m_todo m table = Some v"
    "getTableDeps (m_db m) table = Inr deps"
    "outstanding (m_todo m) (m_done m) table deps = []"
  shows "resolver_inv T0 (m\<lparr>m_todo := (m_todo m)(table := None),
            m_done := (m_done m)(table \<mapsto> v), m_stack := rest\<rparr>)"
proof -
  from assms(1) have
    d: "dom (m_todo m) \<inter> dom (m_done m) = {}" and
    s: "set (m_stack m) \<subseteq> dom (m_todo m) \<union> dom (m_done m)" and
    t: "dom T0 \<subseteq> dom (m_todo m) \<union> dom (m_done m)" and
    i: "\<forall>k v. m_todo m k = Some v \<or> m_done m k = Some v \<longrightarrow> v = item_of T0 k" and
    k: "\<forall>k v. T0 k = Some v \<longrightarrow> Table v = k" and
    c: "\<forall>t\<in>dom (m_done m). \<exists>deps. getTableDeps (m_db m) t = Inr deps \<and> set deps \<subseteq> dom (m_done m)"
    by (simp_all add: resolver_inv_def)
  have 1: "dom ((m_todo m)(table := None)) \<inter> dom ((m_done m)(table \<mapsto> v)) = {}"
    using d by auto
  have 2: "set rest \<subseteq> dom ((m_todo m)(table := None)) \<union> dom ((m_done m)(table \<mapsto> v))"
    using s assms(2) by auto
  have 3: "dom T0 \<subseteq> dom ((m_todo m)(table := None)) \<union> dom ((m_done m)(table \<mapsto> v))"
    using t by auto
  have 4: "\<forall>k u. ((m_todo m)(table := None)) k = Some u \<or> ((m_done m)(table \<mapsto> v)) k = Some u
            \<longrightarrow> u = item_of T0 k"
    using i assms(3) by (auto split: if_splits)
  have dd: "set deps \<subseteq> insert table (dom (m_done m))"
    using outstanding_Nil_done[OF assms(5)] by (auto simp: dom_def)
  have 5: "\<forall>t\<in>dom ((m_done m)(table \<mapsto> v)). \<exists>deps. getTableDeps (m_db m) t = Inr deps \<and>
             set deps \<subseteq> dom ((m_done m)(table \<mapsto> v))"
  proof
    fix t assume "t \<in> dom ((m_done m)(table \<mapsto> v))"
    then consider "t = table" | "t \<in> dom (m_done m)" by auto
    then show "\<exists>deps. getTableDeps (m_db m) t = Inr deps \<and> set deps \<subseteq> dom ((m_done m)(table \<mapsto> v))"
    proof cases
      case 1 with assms(4) dd show ?thesis by auto
    next
      case 2 with c show ?thesis by fastforce
    qed
  qed
  show ?thesis
    unfolding resolver_inv_def using 1 2 3 4 k 5 by simp
qed

lemma Next_frame:
  "Next m = Some r \<Longrightarrow> m_db (snd r) = m_db m \<and> m_manifest (snd r) = m_manifest m"
  by (induction rule: Next_induct) simp_all

lemma Next_inv:
  "Next m = Some r \<Longrightarrow> resolver_inv T0 m \<longrightarrow> resolver_inv T0 (snd r)"
proof (induction rule: Next_induct)
  case (stop m)
  then show ?case by simp
next
  case (skip m table rest r)
  then show ?case using inv_skip by blast
next
  case (fail m table rest v err)
  then show ?case using inv_skip by auto
next
  case (expand m table rest v deps r)
  then show ?case using inv_expand by blast
next
  case (emit m table rest v deps)
  then show ?case using inv_emit by auto
qed

text \<open>What one call does to \<open>done\<close>.\<close>

lemma Next_done:
  "Next m = Some r \<Longrightarrow> resolver_inv T0 m \<longrightarrow>
     (\<forall>v. fst r = Inr (Some v) \<longrightarrow>
        m_done m (Table v) = None \<and> m_done (snd r) = (m_done m)(Table v \<mapsto> v) \<and>
        v = item_of T0 (Table v)) \<and>
     ((\<forall>v. fst r \<noteq> Inr (Some v)) \<longrightarrow> m_done (snd r) = m_done m)"
proof (induction rule: Next_induct)
  case (stop m)
  then show ?case by simp
next
  case (skip m table rest r)
  then show ?case using inv_skip[of T0 m table rest] by simp
next
  case (fail m table rest v err)
  then show ?case by simp
next
  case (expand m table rest v deps r)
  then show ?case using inv_expand[of T0 m table rest v deps] by simp
next
  case (emit m table rest v deps)
  show ?case
  proof
    assume inv: "resolver_inv T0 m"
    then have "v = item_of T0 table" and "Table (item_of T0 table) = table"
      and "m_done m table = None"
      using emit(2) item_of_Table[of T0 table] by (auto simp: resolver_inv_def dom_def)
    then show "(\<forall>va. fst (Inr (Some v), m\<lparr>m_todo := (m_todo m)(table := None),
        m_done := (m_done m)(table \<mapsto> v), m_stack := rest\<rparr>) = Inr (Some va) \<longrightarrow>
          m_done m (Table va) = None \<and>
          m_done (snd (Inr (Some v), m\<lparr>m_todo := (m_todo m)(table := None),
        m_done := (m_done m)(table \<mapsto> v), m_stack := rest\<rparr>)) = (m_done m)(Table va \<mapsto> va) \<and>
          va = item_of T0 (Table va)) \<and>
      ((\<forall>va. fst (Inr (Some v), m\<lparr>m_todo := (m_todo m)(table := None),
        m_done := (m_done m)(table \<mapsto> v), m_stack := rest\<rparr>) \<noteq> Inr (Some va)) \<longrightarrow>
       m_done (snd (Inr (Some v), m\<lparr>m_todo := (m_todo m)(table := None),
        m_done := (m_done m)(table \<mapsto> v), m_stack := rest\<rparr>)) = m_done m)"
      by simp
  qed
qed

lemma Next_todo_on_stack:
  "Next m = Some r \<Longrightarrow> todo_on_stack m \<longrightarrow> (\<forall>e. fst r \<noteq> Inl e) \<longrightarrow> todo_on_stack (snd r)"
proof (induction rule: Next_induct)
  case (expand m table rest v deps r)
  have "todo_on_stack m \<Longrightarrow> todo_on_stack (m\<lparr>m_todo := todo_with (m_todo m) (m_done m) deps,
             m_stack := outstanding (m_todo m) (m_done m) table deps @ table # rest\<rparr>)"
    using expand(1) by (auto simp: todo_on_stack_def dom_todo_with set_outstanding)
  with expand show ?case by blast
qed (auto simp: todo_on_stack_def)

subsection \<open>What successive calls have returned\<close>

lemma deps_first_nth:
  "deps_first db seen names \<Longrightarrow> i < length names \<Longrightarrow> (names ! i, d) \<in> Deps db \<Longrightarrow>
     d = names ! i \<or> d \<in> seen \<or> (\<exists>j<i. names ! j = d)"
proof (induction names arbitrary: seen i)
  case Nil
  then show ?case by simp
next
  case (Cons t ts)
  show ?case
  proof (cases i)
    case 0
    with Cons.prems show ?thesis by auto
  next
    case (Suc k)
    with Cons.prems have "deps_first db (insert t seen) ts" "k < length ts" "(ts ! k, d) \<in> Deps db"
      by auto
    from Cons.IH[OF this] have "d = ts ! k \<or> d \<in> insert t seen \<or> (\<exists>j<k. ts ! j = d)" .
    then show ?thesis
      unfolding Suc by (auto intro: exI[of _ 0] exI[of _ "Suc j" for j])
  qed
qed

lemma returned_Cons_item [simp]: "returned_names (Inr (Some v) # rs) = Table v # returned_names rs"
  by (simp add: returned_names_def)

lemma returned_Cons_other [simp]:
  "\<forall>v. r \<noteq> Inr (Some v) \<Longrightarrow> returned_names (r # rs) = returned_names rs"
  "\<forall>v. r \<noteq> Inr (Some v) \<Longrightarrow> returned (r # rs) = returned rs"
  by (cases r; cases "projr r"; simp add: returned_names_def)+

lemma Next_calls_SucE:
  assumes "Next_calls (Suc n) m = Some (rs, m')"
  obtains r m1 rs' where "Next m = Some (r, m1)" "Next_calls n m1 = Some (rs', m')" "rs = r # rs'"
  using assms by (auto split: option.splits)

lemma Next_calls_inv:
  "Next_calls n m = Some (rs, m') \<Longrightarrow> resolver_inv T0 m \<Longrightarrow>
     resolver_inv T0 m' \<and> m_db m' = m_db m \<and> m_manifest m' = m_manifest m"
proof (induction n arbitrary: m rs)
  case 0
  then show ?case by simp
next
  case (Suc n)
  from Suc.prems(1) obtain r m1 rs' where
    1: "Next m = Some (r, m1)" and 2: "Next_calls n m1 = Some (rs', m')"
    by (rule Next_calls_SucE)
  from Next_inv[OF 1] Suc.prems(2) have "resolver_inv T0 m1" by simp
  from Suc.IH[OF 2 this] Next_frame[OF 1] show ?case by simp
qed

lemma Next_calls_run:
  "Next_calls n m = Some (rs, m') \<Longrightarrow> resolver_inv T0 m \<Longrightarrow>
     deps_first (m_db m) (dom (m_done m)) (returned_names rs) \<and>
     distinct (returned_names rs) \<and>
     set (returned_names rs) \<inter> dom (m_done m) = {} \<and>
     dom (m_done m') = dom (m_done m) \<union> set (returned_names rs) \<and>
     (\<forall>v\<in>set (returned rs). v = item_of T0 (Table v))"
proof (induction n arbitrary: m rs)
  case 0
  then show ?case by (simp add: returned_names_def)
next
  case (Suc n)
  from Suc.prems(1) obtain r m1 rs' where
    1: "Next m = Some (r, m1)" and 2: "Next_calls n m1 = Some (rs', m')" and 3: "rs = r # rs'"
    by (rule Next_calls_SucE)
  from Next_inv[OF 1] Suc.prems(2) have inv1: "resolver_inv T0 m1" by simp
  from Next_frame[OF 1] have db: "m_db m1 = m_db m" by simp
  note IH = Suc.IH[OF 2 inv1, unfolded db]
  show ?case
  proof (cases "\<exists>v. r = Inr (Some v)")
    case False
    with Next_done[OF 1, of T0] Suc.prems(2) have "m_done m1 = m_done m" by simp
    with IH False show ?thesis unfolding 3 by simp
  next
    case True
    then obtain v where r: "r = Inr (Some v)" by blast
    with Next_done[OF 1, of T0] Suc.prems(2) have
      a: "m_done m (Table v) = None" and b: "m_done m1 = (m_done m)(Table v \<mapsto> v)"
      and c: "v = item_of T0 (Table v)" by simp_all
    from inv1 b db have "\<exists>deps. getTableDeps (m_db m) (Table v) = Inr deps \<and>
        set deps \<subseteq> insert (Table v) (dom (m_done m))"
      by (auto simp: resolver_inv_def)
    then have d: "\<forall>d. (Table v, d) \<in> Deps (m_db m) \<longrightarrow> d = Table v \<or> d \<in> dom (m_done m)"
      by (auto simp: Deps_def)
    have e: "dom (m_done m1) = insert (Table v) (dom (m_done m))" using b by auto
    from IH a c d e show ?thesis unfolding 3 r by auto
  qed
qed

subsection \<open>Tables outside the reachable ones are never touched\<close>

lemma Next_within:
  assumes closed: "\<forall>t\<in>R. \<forall>d. (t, d) \<in> Deps db \<longrightarrow> d \<in> R"
  shows "Next m = Some r \<Longrightarrow> m_db m = db \<longrightarrow> within R m \<longrightarrow>
     within R (snd r) \<and> (\<forall>e. fst r = Inl e \<longrightarrow> (\<exists>t\<in>R. getTableDeps db t = Inl e))"
proof (induction rule: Next_induct)
  case (stop m)
  then show ?case by simp
next
  case (skip m table rest r)
  then show ?case by (simp add: within_def)
next
  case (fail m table rest v err)
  then show ?case by (auto simp: within_def dom_def)
next
  case (expand m table rest v deps r)
  have "within R (m\<lparr>m_todo := todo_with (m_todo m) (m_done m) deps,
             m_stack := outstanding (m_todo m) (m_done m) table deps @ table # rest\<rparr>)"
    if "m_db m = db" "within R m"
  proof -
    from that expand(2) have "table \<in> R" by (auto simp: within_def)
    with closed expand(3) that(1) have "set deps \<subseteq> R" by (auto simp: Deps_def)
    with that(2) show ?thesis by (auto simp: within_def dom_todo_with)
  qed
  with expand show ?case by simp
next
  case (emit m table rest v deps)
  then show ?case by (auto simp: within_def dom_def split: if_splits)
qed

lemma Next_calls_within:
  assumes closed: "\<forall>t\<in>R. \<forall>d. (t, d) \<in> Deps db \<longrightarrow> d \<in> R"
  shows "Next_calls n m = Some (rs, m') \<Longrightarrow> m_db m = db \<Longrightarrow> within R m \<Longrightarrow>
     within R m' \<and> (\<forall>e. Inl e \<in> set rs \<longrightarrow> (\<exists>t\<in>R. getTableDeps db t = Inl e))"
proof (induction n arbitrary: m rs)
  case 0
  then show ?case by simp
next
  case (Suc n)
  from Suc.prems(1) obtain r m1 rs' where
    1: "Next m = Some (r, m1)" and 2: "Next_calls n m1 = Some (rs', m')" and 3: "rs = r # rs'"
    by (rule Next_calls_SucE)
  from Next_within[OF closed 1] Suc.prems(2,3) have
    a: "within R m1" and b: "\<forall>e. r = Inl e \<longrightarrow> (\<exists>t\<in>R. getTableDeps db t = Inl e)" by simp_all
  from Next_frame[OF 1] Suc.prems(2) have "m_db m1 = db" by simp
  from Suc.IH[OF 2 this a] b 3 show ?case by auto
qed

lemma reachable_closed: "\<forall>t\<in>reachable db manifest. \<forall>d. (t, d) \<in> Deps db \<longrightarrow> d \<in> reachable db manifest"
  by (auto simp: reachable_def intro: rtrancl_into_rtrancl)

lemma within_expand:
  assumes "\<forall>t\<in>R. \<forall>d. (t, d) \<in> Deps (m_db m) \<longrightarrow> d \<in> R" "within R m"
    "m_todo m table = Some v" "getTableDeps (m_db m) table = Inr deps"
  shows "within R (m\<lparr>m_todo := todo_with (m_todo m) (m_done m) deps, m_stack := st\<rparr>)"
proof -
  from assms(2,3) have "table \<in> R" by (auto simp: within_def)
  with assms(1,4) have "set deps \<subseteq> R" by (auto simp: Deps_def)
  with assms(2) show ?thesis by (auto simp: within_def dom_todo_with)
qed

subsection \<open>Termination of a call\<close>

lemma deps_of_Deps: "d \<in> set (deps_of db t) \<longleftrightarrow> (t, d) \<in> Deps db"
  by (cases "getTableDeps db t") (auto simp: deps_of_def Deps_def)

lemma cost_unfold:
  assumes "wf (dep_below R db)"
  shows "cost R db t = 2 + sum_list (map (cost R db) (filter (\<lambda>d. d \<noteq> t) (deps_in R db t)))"
proof -
  have "cost R db t = 2 + sum_list (map (cut (cost R db) (dep_below R db) t)
                                   (filter (\<lambda>d. d \<noteq> t) (deps_in R db t)))"
    unfolding cost_def by (subst wfrec[OF assms]) simp
  also have "map (cut (cost R db) (dep_below R db) t) (filter (\<lambda>d. d \<noteq> t) (deps_in R db t)) =
             map (cost R db) (filter (\<lambda>d. d \<noteq> t) (deps_in R db t))"
    by (rule map_cong)
       (auto simp: cut_apply dep_below_def deps_of_Deps[symmetric] deps_in_def split: if_splits)
  finally show ?thesis .
qed

lemma cost_ge2: "wf (dep_below R db) \<Longrightarrow> 2 \<le> cost R db t"
  by (subst cost_unfold) simp_all

lemma weight_append:
  "weight R db Q (xs @ ys) = weight R db Q xs + weight R db (Q \<union> set xs) ys"
  by (induction xs arbitrary: Q) simp_all

lemma weight_antimono:
  assumes "wf (dep_below R db)"
  shows "Q \<subseteq> Q' \<Longrightarrow> weight R db Q' xs \<le> weight R db Q xs"
proof (induction xs arbitrary: Q Q')
  case Nil
  then show ?case by simp
next
  case (Cons t ts)
  have "weight R db (insert t Q') ts \<le> weight R db (insert t Q) ts"
    using Cons.prems by (intro Cons.IH) auto
  moreover have "(if \<forall>d\<in>set (deps_of db t). d = t \<or> d \<in> Q' then 1 else cost R db t)
      \<le> (if \<forall>d\<in>set (deps_of db t). d = t \<or> d \<in> Q then 1 else cost R db t)"
    using Cons.prems cost_ge2[OF assms, of t] by auto
  ultimately show ?case by simp
qed

lemma weight_le_cost:
  assumes "wf (dep_below R db)"
  shows "weight R db Q xs \<le> sum_list (map (cost R db) xs)"
proof (induction xs arbitrary: Q)
  case Nil
  then show ?case by simp
next
  case (Cons t ts)
  have "(if \<forall>d\<in>set (deps_of db t). d = t \<or> d \<in> Q then 1 else cost R db t) \<le> cost R db t"
    using cost_ge2[OF assms, of t] by auto
  with Cons[of "insert t Q"] show ?case by simp
qed

lemma outstanding_filter:
  "outstanding td dn table deps =
     filter (\<lambda>d. td d \<noteq> None \<or> dn d = None) (filter (\<lambda>d. d \<noteq> table) deps)"
  by (auto simp: outstanding_def intro: filter_cong)

lemma cost_outstanding:
  assumes "wf (dep_below R db)" "getTableDeps db t = Inr deps" "t \<in> R"
  shows "sum_list (map (cost R db) (outstanding td dn t deps)) + 2 \<le> cost R db t"
proof -
  have "deps_in R db t = deps" using assms(2,3) by (simp add: deps_of_def deps_in_def)
  then have "cost R db t = 2 + sum_list (map (cost R db) (filter (\<lambda>d. d \<noteq> t) deps))"
    using cost_unfold[OF assms(1), of t] by simp
  moreover have "sum_list (map (cost R db) (outstanding td dn t deps))
      \<le> sum_list (map (cost R db) (filter (\<lambda>d. d \<noteq> t) deps))"
    unfolding outstanding_filter by (rule sum_list_filter_le_nat)
  ultimately show ?thesis by simp
qed

lemma weight_head_pos:
  "wf (dep_below R db) \<Longrightarrow> 0 < (if \<forall>d\<in>set (deps_of db t). d = t \<or> d \<in> Q then 1 else cost R db t)"
  using cost_ge2[of R db t] by auto

lemma measure_skip:
  assumes "wf (dep_below R (m_db m))" "resolver_inv T0 m" "m_stack m = table # rest"
    "m_todo m table = None"
  shows "measure_of R (m\<lparr>m_stack := rest\<rparr>) < measure_of R m"
proof -
  from assms(2,3,4) have "table \<in> dom (m_done m)"
    by (auto simp: resolver_inv_def dom_def)
  then have "insert table (dom (m_done m)) = dom (m_done m)" by auto
  with weight_head_pos[OF assms(1), of table "dom (m_done m)"] assms(3)
  show ?thesis by (simp add: measure_of_def)
qed

lemma measure_emit:
  assumes "wf (dep_below R (m_db m))" "m_stack m = table # rest"
  shows "measure_of R (m\<lparr>m_todo := td, m_done := (m_done m)(table \<mapsto> v), m_stack := rest\<rparr>)
           < measure_of R m"
  using weight_head_pos[OF assms(1), of table "dom (m_done m)"] assms(2)
  by (simp add: measure_of_def)

lemma measure_expand:
  assumes wf: "wf (dep_below R (m_db m))" and inv: "resolver_inv T0 m"
    and st: "m_stack m = table # rest" and td: "m_todo m table = Some v"
    and deps: "getTableDeps (m_db m) table = Inr deps"
    and ne: "outstanding (m_todo m) (m_done m) table deps \<noteq> []"
    and tin: "table \<in> R"
  shows "measure_of R (m\<lparr>m_todo := todo_with (m_todo m) (m_done m) deps,
            m_stack := outstanding (m_todo m) (m_done m) table deps @ table # rest\<rparr>)
           < measure_of R m"
proof -
  let ?db = "m_db m" and ?Q = "dom (m_done m)"
  let ?out = "outstanding (m_todo m) (m_done m) table deps"
  have dof: "deps_of ?db table = deps" using deps by (simp add: deps_of_def)
  from inv have disj: "dom (m_todo m) \<inter> ?Q = {}" by (simp add: resolver_inv_def)
  \<comment> \<open>before: the table is not ready, it weighs its cost\<close>
  from ne obtain d where d: "d \<in> set ?out" by (cases ?out) auto
  then have "d \<in> set deps" "d \<noteq> table" "m_todo m d \<noteq> None \<or> m_done m d = None"
    by (auto simp: set_outstanding)
  with disj have "d \<in> set deps" "d \<noteq> table" "d \<notin> ?Q" by (auto simp: dom_def)
  then have notready: "\<not> (\<forall>d\<in>set (deps_of ?db table). d = table \<or> d \<in> ?Q)"
    unfolding dof by blast
  have before: "measure_of R m = cost R ?db table + weight R ?db (insert table ?Q) rest"
    using st notready by (auto simp add: measure_of_def)
  \<comment> \<open>after: the table is ready once the outstanding dependencies above it are done\<close>
  have ready: "\<forall>d\<in>set (deps_of ?db table). d = table \<or> d \<in> ?Q \<union> set ?out"
    unfolding dof by (auto simp: set_outstanding dom_def)
  have after: "measure_of R (m\<lparr>m_todo := todo_with (m_todo m) (m_done m) deps,
            m_stack := ?out @ table # rest\<rparr>)
        = weight R ?db ?Q ?out + (1 + weight R ?db (insert table (?Q \<union> set ?out)) rest)"
    using ready by (simp add: measure_of_def weight_append)
  have 1: "weight R ?db ?Q ?out \<le> sum_list (map (cost R ?db) ?out)"
    by (rule weight_le_cost[OF wf])
  have 2: "weight R ?db (insert table (?Q \<union> set ?out)) rest \<le> weight R ?db (insert table ?Q) rest"
    by (rule weight_antimono[OF wf]) auto
  have 3: "sum_list (map (cost R ?db) ?out) + 2 \<le> cost R ?db table"
    by (rule cost_outstanding[OF wf deps tin])
  from 1 2 3 show ?thesis unfolding before after by linarith
qed

lemma Next_terminates:
  assumes wf: "wf (dep_below R db)" and closed: "\<forall>t\<in>R. \<forall>d. (t, d) \<in> Deps db \<longrightarrow> d \<in> R"
    and "m_db m = db" "resolver_inv T0 m" "within R m"
  shows "\<exists>r m'. Next m = Some (r, m') \<and>
           ((\<exists>v. r = Inr (Some v)) \<longrightarrow> measure_of R m' < measure_of R m)"
  using assms(3-5)
proof (induction "measure_of R m" arbitrary: m rule: less_induct)
  case less
  note db = less.prems(1) and inv = less.prems(2) and win = less.prems(3)
  from wf db have wfm: "wf (dep_below R (m_db m))" by simp
  show ?case
  proof (cases "m_stack m")
    case Nil
    then show ?thesis by (simp add: Next_empty)
  next
    case (Cons table rest)
    show ?thesis
    proof (cases "m_todo m table")
      case None
      let ?m1 = "m\<lparr>m_stack := rest\<rparr>"
      have lt: "measure_of R ?m1 < measure_of R m"
        by (rule measure_skip[OF wfm inv Cons None])
      have i1: "resolver_inv T0 ?m1" by (rule inv_skip[OF inv Cons])
      have w1: "within R ?m1" using win by (simp add: within_def)
      have d1: "m_db ?m1 = db" using db by simp
      from less.hyps[OF lt d1 i1 w1] obtain r m' where
        "Next ?m1 = Some (r, m')"
        "(\<exists>v. r = Inr (Some v)) \<longrightarrow> measure_of R m' < measure_of R ?m1"
        by auto
      with lt show ?thesis unfolding Next_skip[OF Cons None] by (intro exI[of _ r] exI[of _ m']) auto
    next
      case (Some v)
      show ?thesis
      proof (cases "getTableDeps (m_db m) table")
        case (Inl err)
        from Next_fail[OF Cons _ Inl] Some show ?thesis by simp
      next
        case (Inr deps)
        show ?thesis
        proof (cases "outstanding (m_todo m) (m_done m) table deps = []")
          case True
          from Next_emit[OF Cons Some Inr True] measure_emit[OF wfm Cons]
          show ?thesis by simp
        next
          case False
          let ?m1 = "m\<lparr>m_todo := todo_with (m_todo m) (m_done m) deps,
            m_stack := outstanding (m_todo m) (m_done m) table deps @ table # rest\<rparr>"
          from win Some have tin: "table \<in> R" by (auto simp: within_def)
          have lt: "measure_of R ?m1 < measure_of R m"
            by (rule measure_expand[OF wfm inv Cons Some Inr False tin])
          have i1: "resolver_inv T0 ?m1" by (rule inv_expand[OF inv Cons Some])
          have w1: "within R ?m1"
            using closed db by (intro within_expand[OF _ win Some Inr]) simp
          have d1: "m_db ?m1 = db" using db by simp
          from less.hyps[OF lt d1 i1 w1] obtain r m' where
            "Next ?m1 = Some (r, m')"
            "(\<exists>v. r = Inr (Some v)) \<longrightarrow> measure_of R m' < measure_of R ?m1"
            by auto
          moreover have "Next m = Next ?m1"
            using Some by (intro Next_expand[OF Cons _ Inr False]) simp
          ultimately show ?thesis using lt by (intro exI[of _ r] exI[of _ m']) auto
        qed
      qed
    qed
  qed
qed

subsection \<open>The initial iterator\<close>

lemma NewManifestIterator_foldl:
  "foldl (\<lambda>m item. m\<lparr>m_stack := m_stack m @ [Table item],
                       m_todo := (m_todo m)(Table item \<mapsto> item)\<rparr>) m0 items =
     m0\<lparr>m_todo := m_todo m0 ++ map_of (rev (map (\<lambda>i. (Table i, i)) items)),
        m_stack := m_stack m0 @ map Table items\<rparr>"
proof (induction items arbitrary: m0)
  case Nil
  then show ?case by simp
next
  case (Cons a items)
  have "(m_todo m0)(Table a \<mapsto> a) ++ map_of (rev (map (\<lambda>i. (Table i, i)) items)) =
        m_todo m0 ++ ([Table a \<mapsto> a] ++ map_of (rev (map (\<lambda>i. (Table i, i)) items)))"
    by (rule ext) (auto simp: map_add_def split: option.splits)
  then show ?case
    by (subst foldl_Cons, subst Cons.IH) (cases m0, simp)
qed

lemma NewManifestIterator_eq:
  "NewManifestIterator db manifest =
     \<lparr>m_db = db, m_manifest = manifest, m_todo = manifest_todo manifest, m_done = Map.empty,
      m_stack = map Table (Tables manifest)\<rparr>"
  by (simp add: NewManifestIterator_def NewManifestIterator_foldl manifest_todo_def)

lemma dom_manifest_todo: "dom (manifest_todo manifest) = Table ` set (Tables manifest)"
  by (simp add: manifest_todo_def dom_map_of_conv_image_fst image_image)

lemma manifest_todo_Table: "manifest_todo manifest k = Some v \<Longrightarrow> Table v = k"
  by (auto simp: manifest_todo_def dest!: map_of_SomeD)


lemma NewManifestIterator_inv:
  "resolver_inv (manifest_todo manifest) (NewManifestIterator db manifest)"
  unfolding resolver_inv_def NewManifestIterator_eq
  by (auto simp: dom_manifest_todo manifest_todo_Table item_of_def)

lemma NewManifestIterator_todo_on_stack: "todo_on_stack (NewManifestIterator db manifest)"
  by (simp add: todo_on_stack_def NewManifestIterator_eq dom_manifest_todo)

subsection \<open>The dependency graph of a database is finite\<close>

lemma Deps_catalog:
  "Deps db \<subseteq> (\<lambda>r. (conrelid r, confrelid r)) ` set (pg_constraint db)"
  by (auto simp: Deps_def getTableDeps_def split: option.splits)

lemma finite_Deps: "finite (Deps db)"
  by (rule finite_subset[OF Deps_catalog]) simp

lemma wf_dep_below:
  assumes "acyclic (manifest_graph db manifest - Id)"
  shows "wf (dep_below (reachable db manifest) db)"
proof -
  have "manifest_graph db manifest \<subseteq> Deps db" by (auto simp: manifest_graph_def)
  then have "finite (manifest_graph db manifest - Id)"
    using finite_Deps by (meson finite_Diff finite_subset)
  then have "wf ((manifest_graph db manifest - Id)\<inverse>)" using assms by (rule finite_acyclic_wf_converse)
  moreover have "dep_below (reachable db manifest) db \<subseteq> (manifest_graph db manifest - Id)\<inverse>"
    by (auto simp: dep_below_def manifest_graph_def)
  ultimately show ?thesis by (rule wf_subset)
qed

subsection \<open>Successive calls\<close>

lemma Next_calls_total:
  assumes wf: "wf (dep_below R db)" and closed: "\<forall>t\<in>R. \<forall>d. (t, d) \<in> Deps db \<longrightarrow> d \<in> R"
    and "m_db m = db" "resolver_inv T0 m" "within R m"
  shows "\<exists>rs m'. Next_calls n m = Some (rs, m')"
  using assms(3-5)
proof (induction n arbitrary: m)
  case 0
  then show ?case by simp
next
  case (Suc n)
  from Next_terminates[OF wf closed Suc.prems] obtain r m1 where 1: "Next m = Some (r, m1)"
    by blast
  from Next_inv[OF 1] Suc.prems(2) have "resolver_inv T0 m1" by simp
  moreover from Next_frame[OF 1] Suc.prems(1) have "m_db m1 = db" by simp
  moreover from Next_within[OF closed 1] Suc.prems(1,3) have "within R m1" by simp
  ultimately obtain rs m' where "Next_calls n m1 = Some (rs, m')" using Suc.IH by blast
  with 1 show ?case by simp
qed

text \<open>A run: items, then a result that is not an item (end-of-sequence or an error).\<close>

lemma run_completes:
  assumes wf: "wf (dep_below R db)" and closed: "\<forall>t\<in>R. \<forall>d. (t, d) \<in> Deps db \<longrightarrow> d \<in> R"
    and "m_db m = db" "resolver_inv T0 m" "within R m"
  shows "\<exists>vs r m'. Next_calls (Suc (length vs)) m = Some (map (\<lambda>v. Inr (Some v)) vs @ [r], m') \<and>
            (\<forall>v. r \<noteq> Inr (Some v))"
  using assms(3-5)
proof (induction "measure_of R m" arbitrary: m rule: less_induct)
  case less
  from Next_terminates[OF wf closed less.prems] obtain r m1 where
    1: "Next m = Some (r, m1)" and
    2: "(\<exists>v. r = Inr (Some v)) \<longrightarrow> measure_of R m1 < measure_of R m"
    by blast
  show ?case
  proof (cases "\<exists>v. r = Inr (Some v)")
    case False
    with 1 have "Next_calls (Suc (length ([]::ManifestItem list))) m =
        Some (map (\<lambda>v. Inr (Some v)) [] @ [r], m1) \<and> (\<forall>v. r \<noteq> Inr (Some v))"
      by simp
    then show ?thesis by blast
  next
    case True
    then obtain v where r: "r = Inr (Some v)" by blast
    with 2 have lt: "measure_of R m1 < measure_of R m" by blast
    from Next_inv[OF 1] less.prems(2) have i1: "resolver_inv T0 m1" by simp
    from Next_frame[OF 1] less.prems(1) have d1: "m_db m1 = db" by simp
    from Next_within[OF closed 1] less.prems(1,3) have w1: "within R m1" by simp
    from less.hyps[OF lt d1 i1 w1] obtain vs r' m' where
      "Next_calls (Suc (length vs)) m1 = Some (map (\<lambda>v. Inr (Some v)) vs @ [r'], m')"
      "\<forall>v. r' \<noteq> Inr (Some v)" by blast
    with 1 r have "Next_calls (Suc (length (v # vs))) m =
        Some (map (\<lambda>v. Inr (Some v)) (v # vs) @ [r'], m') \<and> (\<forall>v. r' \<noteq> Inr (Some v))"
      by simp
    then show ?thesis by blast
  qed
qed

lemma NewManifestIterator_within: "within (reachable db manifest) (NewManifestIterator db manifest)"
  by (auto simp: within_def NewManifestIterator_eq reachable_def dom_manifest_todo)

text \<open>
  C1. When the foreign-key graph of the manifest, as the schema inspector reports it, is
  acyclic, every call of \<open>Next\<close> returns, the run ends (after finitely many items comes
  a result that is not an item), and the tables are returned in a topological order:
  for every edge \<open>table \<rightarrow> dep\<close> reported by the inspector with \<open>table\<close> at position
  \<open>i\<close> of the returned sequence, \<open>dep\<close> is at a position \<open>j < i\<close>.
\<close>

theorem Next_topological_order:
  assumes "acyclic (manifest_graph db manifest)"
  shows "(\<forall>n. \<exists>rs m'. Next_calls n (NewManifestIterator db manifest) = Some (rs, m') \<and>
            (\<forall>i<length (returned_names rs). \<forall>d. (returned_names rs ! i, d) \<in> Deps db \<longrightarrow>
                (\<exists>j<i. returned_names rs ! j = d))) \<and>
         (\<exists>vs r m'. Next_calls (Suc (length vs)) (NewManifestIterator db manifest) =
              Some (map (\<lambda>v. Inr (Some v)) vs @ [r], m') \<and> (\<forall>v. r \<noteq> Inr (Some v)))"
proof -
  let ?m = "NewManifestIterator db manifest" and ?T = "manifest_todo manifest"
  let ?R = "reachable db manifest"
  have db: "m_db ?m = db" by (simp add: NewManifestIterator_eq)
  have "acyclic (manifest_graph db manifest - Id)"
    by (rule acyclic_subset[OF assms]) auto
  then have wf: "wf (dep_below ?R db)" by (rule wf_dep_below)
  note closed = reachable_closed[of db manifest]
  have inv: "resolver_inv ?T ?m" by (rule NewManifestIterator_inv)
  have win: "within ?R ?m" by (rule NewManifestIterator_within)
  have dn: "dom (m_done ?m) = {}" by (simp add: NewManifestIterator_eq)
  have noself: "(t, t) \<notin> Deps db" if "t \<in> ?R" for t
    using assms that by (auto simp: acyclic_def manifest_graph_def)
  have "\<exists>rs m'. Next_calls n ?m = Some (rs, m') \<and>
            (\<forall>i<length (returned_names rs). \<forall>d. (returned_names rs ! i, d) \<in> Deps db \<longrightarrow>
                (\<exists>j<i. returned_names rs ! j = d))" for n
  proof -
    from Next_calls_total[OF wf closed db inv win] obtain rs m' where
      run: "Next_calls n ?m = Some (rs, m')" by blast
    from Next_calls_run[OF run inv] have df: "deps_first db {} (returned_names rs)"
      and dd: "dom (m_done m') = set (returned_names rs)"
      unfolding db dn by simp_all
    from Next_calls_within[OF closed run db win] dd have sub: "set (returned_names rs) \<subseteq> ?R"
      by (simp add: within_def)
    have "\<exists>j<i. returned_names rs ! j = d"
      if "i < length (returned_names rs)" "(returned_names rs ! i, d) \<in> Deps db" for i d
    proof -
      from that(1) sub have "returned_names rs ! i \<in> ?R" by (meson nth_mem subsetD)
      with that(2) noself have "d \<noteq> returned_names rs ! i" by auto
      with deps_first_nth[OF df that] show ?thesis by auto
    qed
    with run show ?thesis by blast
  qed
  moreover note run_completes[OF wf closed db inv win]
  ultimately show ?thesis by blast
qed

subsection \<open>The run on the shop\<close>

lemma shop_deps:
  "getTableDeps db_shop ''orders'' = Inr [''users'', ''products'', ''users'']"
  "getTableDeps db_shop ''users'' = Inr []"
  "getTableDeps db_shop ''products'' = Inr [''categories'']"
  "getTableDeps db_shop ''categories'' = Inr []"
  by (simp_all add: getTableDeps_def db_shop_def)

lemma shop_run_state:
  "Next_calls 5 (NewManifestIterator db_shop mf_shop) =
     Some ([Inr (Some users_1), Inr (Some (ManifestItem_default ''categories'')),
            Inr (Some (ManifestItem_default ''products'')), Inr (Some orders_2), Inr None],
           \<lparr>m_db = db_shop, m_manifest = mf_shop, m_todo = Map.empty, m_done = shop_done,
            m_stack = []\<rparr>)"
  by (simp add: eval_nat_numeral NewManifestIterator_eq manifest_todo_def mf_shop_def
        orders_1_def orders_2_def users_1_def shop_done_def
        Next_Cons Next_Nil shop_deps Let_def map_index_def fun_eq_iff)

subsection \<open>Runs that reach end-of-sequence\<close>

lemma returned_items [simp]: "returned (item_results vs) = vs"
  by (induction vs) simp_all

lemma returned_append [simp]: "returned (rs @ rs') = returned rs @ returned rs'"
  by (induction rs rule: returned.induct) simp_all

lemma returned_names_items_end [simp]:
  "returned_names (item_results vs @ [Inr None]) = map Table vs"
  by (simp add: returned_names_def)

lemma Next_calls_snocD:
  "Next_calls (Suc n) m = Some (rs', m') \<Longrightarrow>
     \<exists>rs r m1. rs' = rs @ [r] \<and> Next_calls n m = Some (rs, m1) \<and> Next m1 = Some (r, m')"
proof (induction n arbitrary: m rs')
  case 0
  then show ?case by (auto split: option.splits)
next
  case (Suc n)
  from Suc.prems obtain r0 m0 rs0 where
    1: "Next m = Some (r0, m0)" and 2: "Next_calls (Suc n) m0 = Some (rs0, m')" and 3: "rs' = r0 # rs0"
    by (rule Next_calls_SucE)
  from Suc.IH[OF 2] obtain rs r m1 where
    4: "rs0 = rs @ [r]" "Next_calls n m0 = Some (rs, m1)" "Next m1 = Some (r, m')"
    by blast
  from 1 4(2) have "Next_calls (Suc n) m = Some (r0 # rs, m1)" by simp
  with 3 4 show ?case by (intro exI[of _ "r0 # rs"] exI[of _ r] exI[of _ m1]) simp
qed

lemma Next_calls_length: "Next_calls n m = Some (rs, m') \<Longrightarrow> length rs = n"
  by (induction n arbitrary: m rs) (auto split: option.splits)

lemma Next_calls_todo_on_stack:
  "Next_calls n m = Some (rs, m') \<Longrightarrow> todo_on_stack m \<Longrightarrow> \<forall>e. Inl e \<notin> set rs \<Longrightarrow>
     todo_on_stack m'"
proof (induction n arbitrary: m rs)
  case 0
  then show ?case by simp
next
  case (Suc n)
  from Suc.prems(1) obtain r m1 rs' where
    1: "Next m = Some (r, m1)" and 2: "Next_calls n m1 = Some (rs', m')" and 3: "rs = r # rs'"
    by (rule Next_calls_SucE)
  from Next_todo_on_stack[OF 1] Suc.prems(2,3) 3 have "todo_on_stack m1" by auto
  from Suc.IH[OF 2 this] Suc.prems(3) 3 show ?case by simp
qed

lemma closed_reachable_subset:
  assumes "\<forall>t\<in>D. \<forall>d. (t, d) \<in> Deps db \<longrightarrow> d \<in> D" "Table ` set (Tables manifest) \<subseteq> D"
  shows "reachable db manifest \<subseteq> D"
proof
  fix t assume "t \<in> reachable db manifest"
  then obtain t0 where "(t0, t) \<in> (Deps db)\<^sup>*" "t0 \<in> D"
    using assms(2) by (auto simp: reachable_def)
  then show "t \<in> D" using assms(1) by (induction rule: rtrancl_induct) auto
qed


text \<open>What a run that reaches end-of-sequence without an error has returned.\<close>

lemma complete_run_facts:
  assumes run: "Next_calls (Suc (length vs)) (NewManifestIterator db manifest) =
                  Some (item_results vs @ [Inr None], m')"
  shows "distinct (map Table vs)" and "set (map Table vs) = reachable db manifest"
    and "\<forall>v\<in>set vs. v = item_of (manifest_todo manifest) (Table v)"
    and "deps_first db {} (map Table vs)"
proof -
  let ?m = "NewManifestIterator db manifest" and ?T = "manifest_todo manifest"
  have db: "m_db ?m = db" and dn: "dom (m_done ?m) = {}" by (simp_all add: NewManifestIterator_eq)
  have inv: "resolver_inv ?T ?m" by (rule NewManifestIterator_inv)
  from Next_calls_run[OF run inv] have d: "distinct (map Table vs)"
    and i: "\<forall>v\<in>set vs. v = item_of (manifest_todo manifest) (Table v)"
    and f: "deps_first db {} (map Table vs)"
    and dd: "dom (m_done m') = set (map Table vs)"
    unfolding db dn by simp_all
  from d i f show "distinct (map Table vs)"
    and "\<forall>v\<in>set vs. v = item_of (manifest_todo manifest) (Table v)"
    and "deps_first db {} (map Table vs)" by blast+
  from Next_calls_inv[OF run inv] have inv': "resolver_inv ?T m'" and db': "m_db m' = db"
    unfolding db by simp_all
  from Next_calls_snocD[OF run] obtain rs r m1 where
    s: "item_results vs @ [Inr None] = rs @ [r]" and "Next_calls (length vs) ?m = Some (rs, m1)"
    and last: "Next m1 = Some (r, m')"
    by blast
  then have r: "r = Inr None" by simp
  have "todo_on_stack m'"
    by (rule Next_calls_todo_on_stack[OF run NewManifestIterator_todo_on_stack]) auto
  moreover from Next_nil_stack[OF last] r have "m_stack m' = []" by simp
  ultimately have td: "dom (m_todo m') = {}" by (simp add: todo_on_stack_def)
  from inv' have "dom ?T \<subseteq> dom (m_todo m') \<union> dom (m_done m')"
    unfolding resolver_inv_def by blast
  with td have mt: "Table ` set (Tables manifest) \<subseteq> dom (m_done m')"
    by (simp add: dom_manifest_todo)
  have closed: "\<forall>t\<in>dom (m_done m'). \<forall>d. (t, d) \<in> Deps db \<longrightarrow> d \<in> dom (m_done m')"
  proof (intro ballI allI impI)
    fix t d assume t: "t \<in> dom (m_done m')" and e: "(t, d) \<in> Deps db"
    from inv' t obtain deps where "getTableDeps (m_db m') t = Inr deps" "set deps \<subseteq> dom (m_done m')"
      unfolding resolver_inv_def by blast
    with e db' show "d \<in> dom (m_done m')" by (auto simp: Deps_def)
  qed
  have "reachable db manifest \<subseteq> dom (m_done m')"
    by (rule closed_reachable_subset[OF closed mt])
  moreover from Next_calls_within[OF reachable_closed run db NewManifestIterator_within]
  have "dom (m_done m') \<subseteq> reachable db manifest" by (simp add: within_def)
  ultimately show "set (map Table vs) = reachable db manifest" using dd by auto
qed


subsection \<open>Order and contents of a run\<close>

lemma shop_Deps:
  "Deps db_shop = {(''orders'', ''users''), (''orders'', ''products''), (''products'', ''categories'')}"
  by (auto simp: Deps_def getTableDeps_def db_shop_def split: if_splits)

lemma shop_acyclic: "acyclic (Deps db_shop)"
proof (rule acyclicI_order)
  fix a b assume "(a, b) \<in> Deps db_shop"
  then show "(if b = ''orders'' then 2 else if b = ''products'' then 1 else (0::nat))
           < (if a = ''orders'' then 2 else if a = ''products'' then 1 else 0)"
    unfolding shop_Deps by auto
qed

lemma shop_names:
  "returned_names [Inr (Some users_1), Inr (Some (ManifestItem_default ''categories'')),
            Inr (Some (ManifestItem_default ''products'')), Inr (Some orders_2), Inr None] =
   [''users'', ''categories'', ''products'', ''orders'']"
  by (simp add: returned_names_def users_1_def orders_2_def ManifestItem_default_def)

lemma manifest_graph_Deps: "manifest_graph db manifest \<subseteq> Deps db"
  by (auto simp: manifest_graph_def)

lemma shop_graph_acyclic: "acyclic (manifest_graph db_shop mf_shop)"
  by (rule acyclic_subset[OF shop_acyclic manifest_graph_Deps])

theorem Next_topological_order_witness:
  "acyclic (manifest_graph db_shop mf_shop) \<and>
   Next_calls 5 (NewManifestIterator db_shop mf_shop) =
     Some ([Inr (Some users_1), Inr (Some (ManifestItem_default ''categories'')),
            Inr (Some (ManifestItem_default ''products'')), Inr (Some orders_2), Inr None],
           \<lparr>m_db = db_shop, m_manifest = mf_shop, m_todo = Map.empty, m_done = shop_done,
            m_stack = []\<rparr>) \<and>
   (\<forall>n. \<exists>rs m'. Next_calls n (NewManifestIterator db_shop mf_shop) = Some (rs, m') \<and>
      (\<forall>i<length (returned_names rs). \<forall>d. (returned_names rs ! i, d) \<in> Deps db_shop \<longrightarrow>
          (\<exists>j<i. returned_names rs ! j = d))) \<and>
   (\<exists>vs r m'. Next_calls (Suc (length vs)) (NewManifestIterator db_shop mf_shop) =
        Some (map (\<lambda>v. Inr (Some v)) vs @ [r], m') \<and> (\<forall>v. r \<noteq> Inr (Some v)))"
  using Next_topological_order[OF shop_graph_acyclic] shop_graph_acyclic shop_run_state
  by (intro conjI) blast+

text \<open>
  C4. After any number of successive calls of \<open>Next\<close> on a fresh iterator, the names
  returned so far are pairwise distinct, no name is in both \<open>todo\<close> and \<open>done\<close>, and
  \<open>done\<close> holds exactly the returned names, each with the item that was returned for
  it and none of them in \<open>todo\<close> any more. So a name enters \<open>done\<close>, and leaves
  \<open>todo\<close>, at the call that returns it and at no other.
\<close>

theorem Next_returns_each_table_once:
  assumes "Next_calls n (NewManifestIterator db manifest) = Some (rs, m')"
  shows "distinct (returned_names rs) \<and>
         dom (m_todo m') \<inter> dom (m_done m') = {} \<and>
         dom (m_done m') = set (returned_names rs) \<and>
         (\<forall>v\<in>set (returned rs). m_done m' (Table v) = Some v \<and> m_todo m' (Table v) = None)"
proof -
  let ?m = "NewManifestIterator db manifest" and ?T = "manifest_todo manifest"
  have dn: "dom (m_done ?m) = {}" by (simp add: NewManifestIterator_eq)
  have inv: "resolver_inv ?T ?m" by (rule NewManifestIterator_inv)
  from Next_calls_run[OF assms inv] have d: "distinct (returned_names rs)"
    and dd: "dom (m_done m') = set (returned_names rs)"
    and i: "\<forall>v\<in>set (returned rs). v = item_of ?T (Table v)"
    unfolding dn by simp_all
  from Next_calls_inv[OF assms inv] have inv': "resolver_inv ?T m'" by simp
  then have disj: "dom (m_todo m') \<inter> dom (m_done m') = {}"
    and val: "\<forall>k v. m_done m' k = Some v \<longrightarrow> v = item_of ?T k"
    unfolding resolver_inv_def by blast+
  have "m_done m' (Table v) = Some v \<and> m_todo m' (Table v) = None" if "v \<in> set (returned rs)" for v
  proof -
    from that have "Table v \<in> dom (m_done m')" unfolding dd returned_names_def by simp
    then obtain u where u: "m_done m' (Table v) = Some u" by blast
    with val i that have "u = v" by metis
    moreover from u disj have "m_todo m' (Table v) = None" by (auto simp: dom_def)
    ultimately show ?thesis using u by simp
  qed
  with d disj dd show ?thesis by blast
qed

theorem Next_returns_each_table_once_witness:
  "Next_calls 5 (NewManifestIterator db_shop mf_shop) =
     Some ([Inr (Some users_1), Inr (Some (ManifestItem_default ''categories'')),
            Inr (Some (ManifestItem_default ''products'')), Inr (Some orders_2), Inr None],
           \<lparr>m_db = db_shop, m_manifest = mf_shop, m_todo = Map.empty, m_done = shop_done,
            m_stack = []\<rparr>) \<and>
   distinct [''users'', ''categories'', ''products'', ''orders''] \<and>
   dom shop_done = set [''users'', ''categories'', ''products'', ''orders''] \<and>
   shop_done ''orders'' = Some orders_2"
proof -
  from Next_returns_each_table_once[OF shop_run_state]
  have "distinct [''users'', ''categories'', ''products'', ''orders'']"
    and "dom shop_done = set [''users'', ''categories'', ''products'', ''orders'']"
    and "shop_done (Table orders_2) = Some orders_2"
    unfolding shop_names by simp_all
  then show ?thesis using shop_run_state by (simp add: orders_2_def)
qed








subsection \<open>Cycles\<close>

text \<open>Two tables whose only references are to each other: a call of \<open>Next\<close> that finds
  one of them on top of the stack, with both still to do, never returns.\<close>

lemma two_cycle_diverges:
  assumes a: "getTableDeps db a = Inr [b]" and b: "getTableDeps db b = Inr [a]" and ab: "a \<noteq> b"
    and m: "m_db m = db" "m_stack m = t # rest" "t = a \<or> t = b"
           "m_todo m a \<noteq> None" "m_todo m b \<noteq> None"
  shows "Next m = None"
proof (rule ccontr)
  assume "Next m \<noteq> None"
  then obtain r where "Next m = Some r" by blast
  then have "\<not> (m_db m = db \<and> (\<exists>t rest. m_stack m = t # rest \<and> (t = a \<or> t = b)) \<and>
                m_todo m a \<noteq> None \<and> m_todo m b \<noteq> None)"
  proof (induction rule: Next_induct)
    case (stop m)
    then show ?case by simp
  next
    case (skip m table rest r)
    then show ?case by auto
  next
    case (fail m table rest v err)
    then show ?case using a b by auto
  next
    case (expand m table rest v deps r)
    show ?case
    proof
      assume S: "m_db m = db \<and> (\<exists>t rest. m_stack m = t # rest \<and> (t = a \<or> t = b)) \<and>
                m_todo m a \<noteq> None \<and> m_todo m b \<noteq> None"
      with expand(1,3) a b have d: "table = a \<and> deps = [b] \<or> table = b \<and> deps = [a]" by auto
      with S ab have "\<exists>t. outstanding (m_todo m) (m_done m) table deps = [t] \<and> (t = a \<or> t = b)"
        by (auto simp: outstanding_def)
      moreover from S have "todo_with (m_todo m) (m_done m) deps a \<noteq> None"
        "todo_with (m_todo m) (m_done m) deps b \<noteq> None"
        by (auto simp: todo_with_def)
      ultimately show False using expand.IH S by auto
    qed
  next
    case (emit m table rest v deps)
    show ?case
    proof
      assume S: "m_db m = db \<and> (\<exists>t rest. m_stack m = t # rest \<and> (t = a \<or> t = b)) \<and>
                m_todo m a \<noteq> None \<and> m_todo m b \<noteq> None"
      with emit(1,3) a b have d: "table = a \<and> deps = [b] \<or> table = b \<and> deps = [a]" by auto
      with S ab have "outstanding (m_todo m) (m_done m) table deps \<noteq> []"
        by (auto simp: outstanding_def)
      with emit(4) show False by simp
    qed
  qed
  with m show False by auto
qed

lemma cycle_deps:
  "getTableDeps db_cycle ''a'' = Inr [''b'']" "getTableDeps db_cycle ''b'' = Inr [''a'']"
  by (simp_all add: getTableDeps_def db_cycle_def)

text \<open>
  C2, as stated, fails: with tables \<open>a\<close> and \<open>b\<close> referencing each other and both in
  the manifest, the first call of \<open>Next\<close> never returns; no error is reported.
\<close>

theorem cycle_not_detected_counterexample:
  "(''a'', ''b'') \<in> Deps db_cycle \<and> (''b'', ''a'') \<in> Deps db_cycle \<and>
   Next (NewManifestIterator db_cycle mf_cycle) = None"
proof -
  have "Next (NewManifestIterator db_cycle mf_cycle) = None"
    by (rule two_cycle_diverges[OF cycle_deps, of _ "''a''" "[''b'']"])
       (simp_all add: NewManifestIterator_eq mf_cycle_def manifest_todo_def ManifestItem_default_def)
  then show ?thesis by (simp add: Deps_def cycle_deps)
qed

lemma cycle_no_complete_run:
  assumes "a \<in> reachable db manifest" "(a, b) \<in> Deps db" "(b, a) \<in> Deps db" "a \<noteq> b"
  shows "Next_calls (Suc (length vs)) (NewManifestIterator db manifest) \<noteq>
           Some (item_results vs @ [Inr None], m')"
proof
  assume run: "Next_calls (Suc (length vs)) (NewManifestIterator db manifest) =
           Some (item_results vs @ [Inr None], m')"
  note f = complete_run_facts[OF run]
  let ?ns = "map Table vs"
  from f(2) assms(1) have "a \<in> set ?ns" by simp
  then obtain i where i: "i < length ?ns" "?ns ! i = a" by (auto simp: in_set_conv_nth)
  from deps_first_nth[OF f(4) i(1)] i(2) assms(2,4) obtain j where j: "j < i" "?ns ! j = b" by auto
  with i(1) have jl: "j < length ?ns" by simp
  from deps_first_nth[OF f(4) jl] j(2) assms(3,4) obtain k where k: "k < j" "?ns ! k = a" by auto
  from k j i have "k < length ?ns" "k \<noteq> i" "?ns ! k = ?ns ! i" by simp_all
  with nth_eq_iff_index_eq[OF f(1), of k i] i(1) show False by simp
qed

lemma finite_reachable: "finite (reachable db manifest)"
proof -
  have "reachable db manifest \<subseteq> Table ` set (Tables manifest) \<union> Range (Deps db)"
  proof
    fix t assume "t \<in> reachable db manifest"
    then obtain t0 where "(t0, t) \<in> (Deps db)\<^sup>*" "t0 \<in> Table ` set (Tables manifest)"
      by (auto simp: reachable_def)
    then show "t \<in> Table ` set (Tables manifest) \<union> Range (Deps db)"
      by (cases rule: rtranclE) auto
  qed
  moreover have "finite (Range (Deps db))" using finite_Deps by (rule finite_Range)
  then have "finite (Table ` set (Tables manifest) \<union> Range (Deps db))" by simp
  ultimately show ?thesis by (rule finite_subset)
qed

lemma only_items:
  assumes closed: "\<forall>t\<in>R. \<forall>d. (t, d) \<in> Deps db \<longrightarrow> d \<in> R"
    and nofail: "\<forall>t\<in>R. \<forall>e. getTableDeps db t \<noteq> Inl e"
  shows "Next_calls n m = Some (rs, m') \<Longrightarrow> m_db m = db \<Longrightarrow> within R m \<Longrightarrow>
     (\<forall>vs m'. Next_calls (Suc (length vs)) m \<noteq> Some (item_results vs @ [Inr None], m')) \<Longrightarrow>
     rs = item_results (returned rs)"
proof (induction n arbitrary: m rs)
  case 0
  then show ?case by simp
next
  case (Suc n)
  from Suc.prems(1) obtain r m1 rs' where
    1: "Next m = Some (r, m1)" and 2: "Next_calls n m1 = Some (rs', m')" and 3: "rs = r # rs'"
    by (rule Next_calls_SucE)
  from Next_within[OF closed 1] Suc.prems(2,3) nofail have
    w: "within R m1" and ne: "\<forall>e. r \<noteq> Inl e" by auto
  from Suc.prems(4)[rule_format, of "[]" m1] 1 have nn: "r \<noteq> Inr None" by auto
  from ne nn obtain v where r: "r = Inr (Some v)" by (cases r) auto
  from Next_frame[OF 1] Suc.prems(2) have db: "m_db m1 = db" by simp
  have nc: "\<forall>vs m'. Next_calls (Suc (length vs)) m1 \<noteq> Some (item_results vs @ [Inr None], m')"
  proof (intro allI notI)
    fix vs m'' assume "Next_calls (Suc (length vs)) m1 = Some (item_results vs @ [Inr None], m'')"
    with 1 r have "Next_calls (Suc (length (v # vs))) m = Some (item_results (v # vs) @ [Inr None], m'')"
      by simp
    with Suc.prems(4) show False by blast
  qed
  from Suc.IH[OF 2 db w nc] 3 r show ?case by simp
qed

text \<open>
  C2, amended. When two tables that reference each other are reachable from the
  manifest and no lookup fails on a reachable table, the cycle is not detected: some
  call of \<open>Next\<close> never returns, and the calls before it return neither an error nor
  end-of-sequence.
\<close>

theorem cycle_never_detected:
  assumes "a \<in> reachable db manifest" "(a, b) \<in> Deps db" "(b, a) \<in> Deps db" "a \<noteq> b"
    and nofail: "\<forall>t\<in>reachable db manifest. \<forall>e. getTableDeps db t \<noteq> Inl e"
  shows "(\<exists>n. Next_calls n (NewManifestIterator db manifest) = None) \<and>
         (\<forall>n rs m'. Next_calls n (NewManifestIterator db manifest) = Some (rs, m') \<longrightarrow>
            Inr None \<notin> set rs \<and> (\<forall>e. Inl e \<notin> set rs))"
proof -
  let ?m = "NewManifestIterator db manifest" and ?R = "reachable db manifest"
  have db: "m_db ?m = db" by (simp add: NewManifestIterator_eq)
  have nc: "\<forall>vs m'. Next_calls (Suc (length vs)) ?m \<noteq> Some (item_results vs @ [Inr None], m')"
    using cycle_no_complete_run[OF assms(1-4)] by blast
  have items: "rs = item_results (returned rs)" if "Next_calls n ?m = Some (rs, m')" for n rs m'
    by (rule only_items[OF reachable_closed nofail that db NewManifestIterator_within nc])
  have 2: "Inr None \<notin> set rs \<and> (\<forall>e. Inl e \<notin> set rs)" if "Next_calls n ?m = Some (rs, m')" for n rs m'
  proof -
    from items[OF that] have "set rs = (\<lambda>v. Inr (Some v)) ` set (returned rs)"
      by (metis set_map)
    then show ?thesis by auto
  qed
  have 1: "\<exists>n. Next_calls n ?m = None"
  proof (rule ccontr)
    assume "\<not> (\<exists>n. Next_calls n ?m = None)"
    then obtain rs m' where run: "Next_calls (Suc (card ?R)) ?m = Some (rs, m')"
      by (metis option.exhaust surj_pair)
    from items[OF run] Next_calls_length[OF run] have "length (returned rs) = Suc (card ?R)"
      by (metis length_map)
    then have len: "length (returned_names rs) = Suc (card ?R)" by (simp add: returned_names_def)
    have dn: "dom (m_done ?m) = {}" by (simp add: NewManifestIterator_eq)
    from Next_calls_run[OF run NewManifestIterator_inv] have
      d: "distinct (returned_names rs)" and dd: "dom (m_done m') = set (returned_names rs)"
      unfolding dn by simp_all
    from Next_calls_within[OF reachable_closed run db NewManifestIterator_within] dd
    have "set (returned_names rs) \<subseteq> ?R" by (simp add: within_def)
    then have "card (set (returned_names rs)) \<le> card ?R"
      by (rule card_mono[OF finite_reachable])
    with distinct_card[OF d] len show False by simp
  qed
  from 1 2 show ?thesis by blast
qed

theorem cycle_never_detected_witness:
  "''a'' \<in> reachable db_cycle mf_cycle \<and> (''a'', ''b'') \<in> Deps db_cycle \<and>
   (''b'', ''a'') \<in> Deps db_cycle \<and> ''a'' \<noteq> ''b'' \<and>
   (\<exists>n. Next_calls n (NewManifestIterator db_cycle mf_cycle) = None) \<and>
   Next_calls 1 (NewManifestIterator db_cycle mf_cycle) = None"
proof -
  have r: "''a'' \<in> reachable db_cycle mf_cycle"
    by (auto simp: reachable_def mf_cycle_def ManifestItem_default_def)
  have ab: "(''a'', ''b'') \<in> Deps db_cycle" and ba: "(''b'', ''a'') \<in> Deps db_cycle"
    by (simp_all add: Deps_def cycle_deps)
  have nf: "\<forall>t\<in>reachable db_cycle mf_cycle. \<forall>e. getTableDeps db_cycle t \<noteq> Inl e"
    by (simp add: getTableDeps_def db_cycle_def)
  have "Next (NewManifestIterator db_cycle mf_cycle) = None"
    by (rule two_cycle_diverges[OF cycle_deps, of _ "''a''" "[''b'']"])
       (simp_all add: NewManifestIterator_eq mf_cycle_def manifest_todo_def ManifestItem_default_def)
  then have "Next_calls 1 (NewManifestIterator db_cycle mf_cycle) = None" by simp
  with cycle_never_detected[OF r ab ba _ nf] r ab ba show ?thesis by simp
qed

section \<open>The writer\<close>


subsection \<open>The writer on the shop\<close>

lemma shop_cols:
  "getTableCols db_shop ''users'' = Inr [''id'', ''name'']"
  "getTableCols db_shop ''categories'' = Inr []"
  "getTableCols db_shop ''products'' = Inr []"
  "getTableCols db_shop ''orders'' = Inr [''id'']"
  by (simp_all add: getTableCols_def db_shop_def)

lemma shop_CopyTo: "CopyTo db_shop sql = (''<'' @ sql @ ''>'' @ [CHR 0x0A], None)"
  by (simp add: db_shop_def)

lemma quote_id: "strconv_Quote ''id'' = [CHR 0x22] @ ''id'' @ [CHR 0x22]"
  "strconv_Quote ''name'' = [CHR 0x22] @ ''name'' @ [CHR 0x22]"
  by (simp_all add: strconv_Quote_def appendEscapedRune_def)

lemma shop_items:
  "MakeDump_item spec_Render db_shop mf_shop users_1 w =
     (w @ BEGIN_TABLE_DUMP ''users'' ''users'' ([CHR 0x22] @ ''id'' @ [CHR 0x22] @ '', '' @ [CHR 0x22] @ ''name'' @ [CHR 0x22])
        @ ''<COPY (SELECT * FROM users WHERE active) TO STDOUT>'' @ [CHR 0x0A] @ END_TABLE_DUMP, None)"
  "MakeDump_item spec_Render db_shop mf_shop (ManifestItem_default ''categories'') w =
     (w @ BEGIN_TABLE_DUMP ''categories'' ''categories'' []
        @ ''<COPY categories TO STDOUT>'' @ [CHR 0x0A] @ END_TABLE_DUMP, None)"
  "MakeDump_item spec_Render db_shop mf_shop orders_2 w =
     (w @ BEGIN_TABLE_DUMP ''orders'' ''orders'' ([CHR 0x22] @ ''id'' @ [CHR 0x22])
        @ ''<COPY orders TO STDOUT>'' @ [CHR 0x0A] @ END_TABLE_DUMP @ SQL_CMD_DUMP ''ANALYZE orders'', None)"
  by (simp_all add: MakeDump_item_def users_1_def orders_2_def ManifestItem_default_def mf_shop_def
        shop_cols shop_CopyTo beginTable_def dumpTable_def endTable_def dumpSqlCmd_def quote_id
        spec_Render_def Let_def)

subsection \<open>Framing\<close>

lemma quoted_foldl:
  "foldl (\<lambda>quoted v. quoted @ [strconv_Quote v]) acc columns = acc @ map strconv_Quote columns"
  by (induction columns arbitrary: acc) simp_all

lemma beginTable_eq:
  "beginTable w table columns =
     w @ BEGIN_TABLE_DUMP table table (strings_Join (map strconv_Quote columns) '', '')"
  by (simp add: beginTable_def quoted_foldl)

lemma dumpSqlCmd_foldl: "foldl dumpSqlCmd w sqls = w @ concat (map SQL_CMD_DUMP sqls)"
  by (induction sqls arbitrary: w) (simp_all add: dumpSqlCmd_def)

lemma MakeDump_item_prefix: "prefix w (fst (MakeDump_item render db manifest v w))"
  by (auto simp: MakeDump_item_def beginTable_eq dumpTable_def endTable_def dumpSqlCmd_foldl Let_def
           split: sum.splits option.splits)

lemma MakeDump_loop_prefix:
  assumes "MakeDump_loop render db manifest it w = Some r"
  shows "prefix w (fst r)"
proof (rule MakeDump_loop.raw_induct[where P = "\<lambda>render db manifest it w r. prefix w (fst r)",
        OF _ assms], goal_cases)
  case (1 loop render db manifest it w r)
  show ?case
  proof (cases "Next it")
    case None
    with 1(2) show ?thesis by simp
  next
    case (Some a)
    obtain res it' where a: "a = (res, it')" by (cases a)
    show ?thesis
    proof (cases res)
      case (Inl err)
      with 1(2) Some a show ?thesis by auto
    next
      case (Inr ov)
      show ?thesis
      proof (cases ov)
        case None
        with 1(2) Some a Inr show ?thesis by auto
      next
        case (Some v)
        obtain w' e where i: "MakeDump_item render db manifest v w = (w', e)"
          by (cases "MakeDump_item render db manifest v w")
        from MakeDump_item_prefix[of w render db manifest v] i have p: "prefix w w'" by simp
        show ?thesis
        proof (cases e)
          case None
          with 1(2) \<open>Next it = Some a\<close> a Inr Some i have "loop render db manifest it' w' = Some r"
            by simp
          from 1(1)[OF this] p show ?thesis by (rule prefix_order.trans[rotated])
        next
          case (Some err)
          with 1(2) \<open>Next it = Some a\<close> a Inr \<open>ov = Some v\<close> i p show ?thesis by auto
        qed
      qed
    qed
  qed
qed

text \<open>
  C5, amended. Every run of \<open>MakeDump\<close> that returns \<open>nil\<close> has written bytes that
  begin with the code's literal \<open>BEGIN_DUMP\<close> and end with the code's literal
  \<open>END_DUMP\<close>; with an empty table list the run returns \<open>nil\<close> and has written
  exactly \<open>BEGIN_DUMP\<close> followed by \<open>END_DUMP\<close>.
\<close>

theorem MakeDump_framing:
  "(MakeDump render db manifest = Some (w, None) \<longrightarrow> prefix BEGIN_DUMP w \<and> suffix END_DUMP w) \<and>
   (Tables manifest = [] \<longrightarrow> MakeDump render db manifest = Some (BEGIN_DUMP @ END_DUMP, None))"
proof (intro conjI impI)
  assume run: "MakeDump render db manifest = Some (w, None)"
  then obtain w' where l: "MakeDump_loop render db manifest (NewManifestIterator db manifest)
      (beginDump []) = Some (w', None)" and w: "w = endDump w'"
    by (auto simp: MakeDump_def split: option.splits)
  from MakeDump_loop_prefix[OF l] have "prefix BEGIN_DUMP w'" by (simp add: beginDump_def)
  with w show "prefix BEGIN_DUMP w" "suffix END_DUMP w"
    by (auto simp: endDump_def prefix_def suffix_def)
next
  assume "Tables manifest = []"
  then have "Next (NewManifestIterator db manifest) = Some (Inr None, NewManifestIterator db manifest)"
    by (intro Next_empty) (simp add: NewManifestIterator_eq)
  then show "MakeDump render db manifest = Some (BEGIN_DUMP @ END_DUMP, None)"
    by (simp add: MakeDump_def MakeDump_loop.simps beginDump_def endDump_def)
qed

lemma shop_item_products:
  "MakeDump_item spec_Render db_shop mf_shop (ManifestItem_default ''products'') w =
     (w @ BEGIN_TABLE_DUMP ''products'' ''products'' []
        @ ''<COPY products TO STDOUT>'' @ [CHR 0x0A] @ END_TABLE_DUMP, None)"
  by (simp add: MakeDump_item_def ManifestItem_default_def mf_shop_def
        shop_cols shop_CopyTo beginTable_def dumpTable_def endTable_def dumpSqlCmd_def
        spec_Render_def Let_def)

lemma shop_Tables: "Tables mf_shop = [orders_1, users_1, orders_2]"
  by (simp add: mf_shop_def)

lemma shop_item_names:
  "Table orders_1 = ''orders''" "Table users_1 = ''users''" "Table orders_2 = ''orders''"
  by (simp_all add: orders_1_def users_1_def orders_2_def)

lemma shop_MakeDump: "MakeDump spec_Render db_shop mf_shop = Some (shop_dump, None)"
  by (simp add: MakeDump_def MakeDump_loop.simps NewManifestIterator_eq manifest_todo_def
        shop_Tables shop_item_names Next_Cons Next_Nil shop_deps Let_def map_index_def
        shop_items shop_item_products beginDump_def endDump_def shop_dump_def)

theorem MakeDump_framing_witness:
  "MakeDump spec_Render db_shop mf_shop = Some (shop_dump, None) \<and>
   prefix BEGIN_DUMP shop_dump \<and> suffix END_DUMP shop_dump \<and>
   Tables mf_empty = [] \<and>
   MakeDump spec_Render db_none mf_empty = Some (BEGIN_DUMP @ END_DUMP, None)"
  using MakeDump_framing[of spec_Render db_shop mf_shop shop_dump]
    MakeDump_framing[of spec_Render db_none mf_empty] shop_MakeDump
  by (simp add: mf_empty_def)

text \<open>
  C5, as stated, fails: the run on an empty table list returns \<open>nil\<close>, and what it
  has written does not begin with the preamble as section 6 lists it, not even after its
  leading newline: the code has an empty line between the \<open>client_min_messages\<close> and
  the \<open>search_path\<close> settings that the listing of section 6 does not have. The
  postamble is the one of section 6.
\<close>

theorem framing_not_section6_counterexample:
  "MakeDump spec_Render db_none mf_empty = Some (BEGIN_DUMP @ END_DUMP, None) \<and>
   \<not> prefix section6_preamble (BEGIN_DUMP @ END_DUMP) \<and>
   \<not> prefix section6_preamble (dropWhile (\<lambda>c. c = CHR 0x0A) (BEGIN_DUMP @ END_DUMP)) \<and>
   suffix section6_postamble (BEGIN_DUMP @ END_DUMP)"
proof -
  have "MakeDump spec_Render db_none mf_empty = Some (BEGIN_DUMP @ END_DUMP, None)"
    by (simp add: MakeDump_def MakeDump_loop.simps NewManifestIterator_eq manifest_todo_def
          mf_empty_def Next_Nil beginDump_def endDump_def)
  moreover have "\<not> prefix section6_preamble (BEGIN_DUMP @ END_DUMP)"
    by (simp add: section6_preamble_def BEGIN_DUMP_def go_lines_def)
  moreover have "\<not> prefix section6_preamble (dropWhile (\<lambda>c. c = CHR 0x0A) (BEGIN_DUMP @ END_DUMP))"
    by (simp add: section6_preamble_def BEGIN_DUMP_def go_lines_def)
  moreover have "suffix section6_postamble (BEGIN_DUMP @ END_DUMP)"
    by (rule suffix_appendI)
       (simp add: section6_postamble_def END_DUMP_def go_lines_def suffix_def)
  ultimately show ?thesis by blast
qed

subsection \<open>Headers and queries\<close>







subsection \<open>Failures\<close>

















end
